theory Spec2Isabelle
  imports Complex_Main
begin

section \<open>Strings and the character tables of the Python runtime\<close>

text \<open>
  A Python \<^verbatim>\<open>str\<close> is a sequence of Unicode code points. \<open>py\<close> turns an ASCII
  literal of this theory into such a sequence.
\<close>

type_synonym cp = nat
type_synonym str = "cp list"

definition py :: "string \<Rightarrow> str" where
  "py s = map of_char s"

section \<open>Exceptions, JSON values and the lines that the program prints\<close>

datatype pyexn =
    TypeError
  | AttributeError
  | IndexError
  | ValueError
  | KeyError
  | UnicodeEncodeError
  | External str  \<comment> \<open>raised inside Flask or the classifier, with its message\<close>

text \<open>What \<^verbatim>\<open>request.get_json()\<close> can return.\<close>

datatype json =
    JNull
  | JBool bool
  | JNum real
  | JStr str
  | JList "json list"
  | JObj "(str \<times> json) list"

text \<open>
  The three \<^verbatim>\<open>print\<close> calls of \<^verbatim>\<open>categorize_sms\<close>, each with the values that its
  f-string formats.
\<close>

datatype line =
    Processing json       \<comment> \<open>\<^verbatim>\<open>print(f"... Processing SMS: {sms_text[:50]}...")\<close>\<close>
  | Result_line str real  \<comment> \<open>\<^verbatim>\<open>print(f"... Result: {prediction} (confidence: {confidence:.2f})")\<close>\<close>
  | Error_line pyexn      \<comment> \<open>\<^verbatim>\<open>print(f"... Error: {e}")\<close>\<close>

section \<open>What the Python runtime brings along\<close>

text \<open>
  \<^verbatim>\<open>app.py\<close> calls \<^verbatim>\<open>str.lower\<close>, \<^verbatim>\<open>str.split\<close>, \<^verbatim>\<open>float\<close> and the classes
  \<^verbatim>\<open>\w\<close>, \<^verbatim>\<open>\s\<close>, \<^verbatim>\<open>\d\<close> of \<^verbatim>\<open>re\<close>. On \<^verbatim>\<open>str\<close> arguments all of them read the
  Unicode tables built into the interpreter, which are no part of the repository; they
  are a parameter of every function here:
  \<^item> \<open>str_lower\<close> is \<^verbatim>\<open>str.lower\<close>, on whole strings (the lower case of a capital sigma
    depends on its neighbours);
  \<^item> \<open>isalnum\<close> is \<^verbatim>\<open>Py_UNICODE_ISALNUM\<close>: \<^verbatim>\<open>\w\<close> is \<open>isalnum\<close> or the underscore;
  \<^item> \<open>isspace\<close> is \<^verbatim>\<open>Py_UNICODE_ISSPACE\<close>, read by \<^verbatim>\<open>\s\<close> and by \<^verbatim>\<open>str.split()\<close>;
  \<^item> \<open>todecimal\<close> is \<^verbatim>\<open>Py_UNICODE_TODECIMAL\<close>: \<^verbatim>\<open>\d\<close> matches the code points that have
    a decimal value, and \<^verbatim>\<open>float\<close> reads that value.

  The last field is no table. \<^verbatim>\<open>print\<close> encodes its text with the encoding of standard
  output and raises \<^verbatim>\<open>UnicodeEncodeError\<close> when a character has no encoding there (the
  three lines start with characters outside ASCII, and a text from JSON may hold a lone
  surrogate); \<open>print_raises\<close> says for which lines it does.
\<close>

record tables =
  str_lower :: "str \<Rightarrow> str"
  isalnum :: "cp \<Rightarrow> bool"
  isspace :: "cp \<Rightarrow> bool"
  todecimal :: "cp \<Rightarrow> nat option"
  print_raises :: "line \<Rightarrow> bool"

text \<open>
  The tables of CPython on the ASCII range. Code points from 128 on are entered as
  caseless symbols, which is not what CPython has; \<open>ascii_exact\<close> below says what a
  table must agree on with this one, and the texts evaluated with \<open>ascii_tables\<close> in
  this theory are ASCII texts. Standard output is UTF-8 in \<open>ascii_tables\<close>: it encodes
  every code point but the surrogates. They can reach a line through the text of the
  message, the label of the classifier or the message of an exception of a library; the
  \<^verbatim>\<open>repr\<close> of a list escapes them, and the messages of the interpreter's own exceptions
  are ASCII.
\<close>

definition surrogate :: "cp \<Rightarrow> bool" where
  "surrogate c = (55296 \<le> c \<and> c \<le> 57343)"

fun utf8_raises :: "line \<Rightarrow> bool" where
  "utf8_raises (Processing (JStr s)) = list_ex surrogate s"
| "utf8_raises (Processing v) = False"
| "utf8_raises (Result_line prediction conf) = list_ex surrogate prediction"
| "utf8_raises (Error_line (External msg)) = list_ex surrogate msg"
| "utf8_raises (Error_line e) = False"

definition ascii_lower :: "cp \<Rightarrow> cp" where
  "ascii_lower c = (if 65 \<le> c \<and> c \<le> 90 then c + 32 else c)"

definition ascii_upper :: "cp \<Rightarrow> cp" where
  "ascii_upper c = (if 97 \<le> c \<and> c \<le> 122 then c - 32 else c)"

definition ascii_cased :: "cp \<Rightarrow> bool" where
  "ascii_cased c = ((65 \<le> c \<and> c \<le> 90) \<or> (97 \<le> c \<and> c \<le> 122))"

definition ascii_isalnum :: "cp \<Rightarrow> bool" where
  "ascii_isalnum c = ((48 \<le> c \<and> c \<le> 57) \<or> (65 \<le> c \<and> c \<le> 90) \<or> (97 \<le> c \<and> c \<le> 122))"

definition ascii_isspace :: "cp \<Rightarrow> bool" where
  "ascii_isspace c = ((9 \<le> c \<and> c \<le> 13) \<or> (28 \<le> c \<and> c \<le> 32))"

definition ascii_todecimal :: "cp \<Rightarrow> nat option" where
  "ascii_todecimal c = (if 48 \<le> c \<and> c \<le> 57 then Some (c - 48) else None)"

definition ascii_tables :: tables where
  "ascii_tables = \<lparr> str_lower = map ascii_lower, isalnum = ascii_isalnum,
                     isspace = ascii_isspace, todecimal = ascii_todecimal,
                     print_raises = utf8_raises \<rparr>"

definition is_ascii :: "str \<Rightarrow> bool" where
  "is_ascii s = list_all (\<lambda>c. c < 128) s"

text \<open>What every table of a CPython interpreter has on the ASCII range.\<close>

definition ascii_exact :: "tables \<Rightarrow> bool" where
  "ascii_exact U =
     ((\<forall>s. is_ascii s \<longrightarrow> str_lower U s = map ascii_lower s) \<and>
      (\<forall>c. c < 128 \<longrightarrow> isalnum U c = ascii_isalnum c) \<and>
      (\<forall>c. c < 128 \<longrightarrow> isspace U c = ascii_isspace c) \<and>
      (\<forall>c. c < 128 \<longrightarrow> todecimal U c = ascii_todecimal c))"

definition is_decimal :: "tables \<Rightarrow> cp \<Rightarrow> bool" where
  \<comment> \<open>\<^verbatim>\<open>\d\<close>\<close>
  "is_decimal U c = (todecimal U c \<noteq> None)"

text \<open>
  In every version of the Unicode tables a decimal digit has a value from 0 to 9 and is
  no white space, and the decimal digits below 127 are \<^verbatim>\<open>0\<close> to \<^verbatim>\<open>9\<close>.
\<close>

definition decimal_sane :: "tables \<Rightarrow> bool" where
  "decimal_sane U =
     (\<forall>c d. todecimal U c = Some d \<longrightarrow>
            d < 10 \<and> \<not> isspace U c \<and> (c < 127 \<longrightarrow> 48 \<le> c \<and> c \<le> 57))"

text \<open>
  A string made of code points that \<^verbatim>\<open>str.lower\<close> has produced, and of spaces, is left
  as it is by \<^verbatim>\<open>str.lower\<close>: the lower-case mapping of every code point consists of code
  points that are their own lower case, none of them the capital sigma (checked over all
  code points of Unicode 14 with CPython 3.11).
\<close>

definition lower_stable :: "tables \<Rightarrow> bool" where
  "lower_stable U =
     (\<forall>s t. set t \<subseteq> insert 32 (set (str_lower U s)) \<longrightarrow> str_lower U t = t)"

section \<open>The Normalizer: \<^verbatim>\<open>preprocess_text\<close>\<close>

definition is_word :: "tables \<Rightarrow> cp \<Rightarrow> bool" where
  \<comment> \<open>\<^verbatim>\<open>\w\<close>\<close>
  "is_word U c = (isalnum U c \<or> c = 95)"

definition sub_nonword :: "tables \<Rightarrow> str \<Rightarrow> str" where
  \<comment> \<open>\<^verbatim>\<open>re.sub(r'[^\w\s]', ' ', text)\<close>\<close>
  "sub_nonword U text = map (\<lambda>c. if \<not> (is_word U c \<or> isspace U c) then 32 else c) text"

function split_ws :: "tables \<Rightarrow> str \<Rightarrow> str list" where
  \<comment> \<open>\<^verbatim>\<open>text.split()\<close>: the maximal runs of code points that are no white space\<close>
  "split_ws U [] = []"
| "split_ws U (c # cs) =
     (if isspace U c then split_ws U cs
      else (c # takeWhile (\<lambda>x. \<not> isspace U x) cs) # split_ws U (dropWhile (\<lambda>x. \<not> isspace U x) cs))"
  by pat_completeness auto
termination
  by (relation "measure (\<lambda>(U, s). length s)") (auto simp: length_dropWhile_le less_Suc_eq_le)

fun join :: "str \<Rightarrow> str list \<Rightarrow> str" where
  \<comment> \<open>\<^verbatim>\<open>sep.join(words)\<close>\<close>
  "join sep [] = []"
| "join sep [w] = w"
| "join sep (w # ws) = w @ sep @ join sep ws"

definition preprocess_text :: "tables \<Rightarrow> str \<Rightarrow> str" where
  "preprocess_text U text =
     (let text = str_lower U text;
          text = sub_nonword U text;
          text = join [32] (split_ws U text)
      in text)"

section \<open>Regular expressions as \<^verbatim>\<open>re.search\<close> runs them\<close>

text \<open>
  The constructs that the five patterns use. \<^verbatim>\<open>re\<close> is a backtracking matcher: an
  alternation tries its left branch first, \<^verbatim>\<open>*\<close> first tries one more round, and the
  first way to match the whole pattern is the match. \<open>matches U r s\<close> lists every way to
  match \<open>r\<close> at the start of \<open>s\<close>, in the order in which backtracking finds them, as
  the text left over and the text of group 1 (the patterns have one group each).
\<close>

datatype regex =
    Eps                \<comment> \<open>the empty pattern\<close>
  | Chr cp             \<comment> \<open>a literal character\<close>
  | Dig                \<comment> \<open>\<^verbatim>\<open>\d\<close>\<close>
  | Spc                \<comment> \<open>\<^verbatim>\<open>\s\<close>\<close>
  | Cat regex regex    \<comment> \<open>one pattern after the other\<close>
  | Alt regex regex    \<comment> \<open>\<^verbatim>\<open>a|b\<close>\<close>
  | Star regex         \<comment> \<open>\<^verbatim>\<open>a*\<close>, greedy\<close>
  | Grp regex          \<comment> \<open>\<^verbatim>\<open>(a)\<close>, the capturing group\<close>

definition Plus1 :: "regex \<Rightarrow> regex" where
  \<comment> \<open>\<^verbatim>\<open>a+\<close>\<close>
  "Plus1 a = Cat a (Star a)"

definition Opt :: "regex \<Rightarrow> regex" where
  \<comment> \<open>\<^verbatim>\<open>a?\<close>\<close>
  "Opt a = Alt a Eps"

definition lit :: "string \<Rightarrow> regex" where
  \<comment> \<open>the characters of a word, one after the other\<close>
  "lit w = foldr (\<lambda>c r. Cat (Chr (of_char c)) r) w Eps"

fun later_group :: "str option \<Rightarrow> str option \<Rightarrow> str option" where
  \<comment> \<open>group 1 after two patterns in a row: what the second has captured, if anything\<close>
  "later_group g None = g"
| "later_group g (Some h) = Some h"

text \<open>
  In the equation for \<open>Star\<close> a round that consumes nothing is not repeated. The rounds
  of the patterns below (\<^verbatim>\<open>\s\<close>, \<^verbatim>\<open>\d\<close>, \<^verbatim>\<open>,\d+\<close>) consume at least one character,
  so the condition only makes the recursion well-founded.
\<close>

function matches :: "tables \<Rightarrow> regex \<Rightarrow> str \<Rightarrow> (str \<times> str option) list" where
  "matches U Eps s = [(s, None)]"
| "matches U (Chr c) s =
     (case s of [] \<Rightarrow> [] | x # xs \<Rightarrow> if x = c then [(xs, None)] else [])"
| "matches U Dig s =
     (case s of [] \<Rightarrow> [] | x # xs \<Rightarrow> if is_decimal U x then [(xs, None)] else [])"
| "matches U Spc s =
     (case s of [] \<Rightarrow> [] | x # xs \<Rightarrow> if isspace U x then [(xs, None)] else [])"
| "matches U (Cat a b) s =
     concat (map (\<lambda>m1. map (\<lambda>m2. (fst m2, later_group (snd m1) (snd m2)))
                             (matches U b (fst m1)))
                 (matches U a s))"
| "matches U (Alt a b) s = matches U a s @ matches U b s"
| "matches U (Star a) s =
     concat (map (\<lambda>m1. if length (fst m1) < length s then matches U (Star a) (fst m1) else [])
                 (matches U a s))
     @ [(s, None)]"
| "matches U (Grp a) s =
     map (\<lambda>m1. (fst m1, Some (take (length s - length (fst m1)) s))) (matches U a s)"
  by pat_completeness auto
termination
  by (relation "inv_image (less_than <*lex*> less_than) (\<lambda>(U, r, s). (size r, length s))")
     auto

declare matches.simps(7) [simp del]

fun has_group :: "regex \<Rightarrow> bool" where
  \<comment> \<open>whether a pattern has a capturing group\<close>
  "has_group (Grp a) = True"
| "has_group (Cat a b) = (has_group a \<or> has_group b)"
| "has_group (Alt a b) = (has_group a \<or> has_group b)"
| "has_group (Star a) = has_group a"
| "has_group _ = False"

text \<open>
  \<^verbatim>\<open>re.search\<close>: the first match at the leftmost position that has one. The result is
  \<^verbatim>\<open>match.group(1)\<close>, which is \<^verbatim>\<open>None\<close> for a group that took no part in the match.
\<close>

datatype match = Match (group1: "str option")

fun search :: "tables \<Rightarrow> regex \<Rightarrow> str \<Rightarrow> match option" where
  "search U r [] = (case matches U r [] of [] \<Rightarrow> None | m # _ \<Rightarrow> Some (Match (snd m)))"
| "search U r (c # cs) =
     (case matches U r (c # cs) of [] \<Rightarrow> search U r cs | m # _ \<Rightarrow> Some (Match (snd m)))"

section \<open>The AmountExtractor: \<^verbatim>\<open>extract_amount_from_sms\<close>\<close>

text \<open>
  The alternative after \<^verbatim>\<open>inr\<close> is, in the source file, the three code points U+201A,
  U+00C7, U+03C0.
\<close>

definition marker :: regex where
  \<comment> \<open>\<^verbatim>\<open>(?:rs\.?|inr|...)\<close>\<close>
  "marker = Alt (Cat (lit ''rs'') (Opt (Chr 46)))
                (Alt (lit ''inr'') (Cat (Chr 8218) (Cat (Chr 199) (Chr 960))))"

definition number :: regex where
  \<comment> \<open>\<^verbatim>\<open>\d+(?:,\d+)*(?:\.\d{2})?\<close>\<close>
  "number = Cat (Plus1 Dig)
                (Cat (Star (Cat (Chr 44) (Plus1 Dig))) (Opt (Cat (Chr 46) (Cat Dig Dig))))"

definition marker_number :: regex where
  \<comment> \<open>\<^verbatim>\<open>(?:rs\.?|inr|...)\s*(\d+(?:,\d+)*(?:\.\d{2})?)\<close>\<close>
  "marker_number = Cat marker (Cat (Star Spc) (Grp number))"

definition number_marker :: regex where
  \<comment> \<open>\<^verbatim>\<open>(\d+(?:,\d+)*(?:\.\d{2})?)\s*(?:rs\.?|inr|...)\<close>\<close>
  "number_marker = Cat (Grp number) (Cat (Star Spc) marker)"

definition keyword :: "string \<Rightarrow> regex" where
  \<comment> \<open>\<^verbatim>\<open>word\s*(?:rs\.?|inr|...)?\s*(\d+(?:,\d+)*(?:\.\d{2})?)\<close>\<close>
  "keyword w = Cat (lit w) (Cat (Star Spc) (Cat (Opt marker) (Cat (Star Spc) (Grp number))))"

definition patterns :: "regex list" where
  "patterns = [marker_number, number_marker,
               keyword ''amount'', keyword ''debited'', keyword ''spent'']"

definition replace_comma :: "str \<Rightarrow> str" where
  \<comment> \<open>\<^verbatim>\<open>.replace(',', '')\<close>\<close>
  "replace_comma s = filter (\<lambda>c. c \<noteq> 44) s"

text \<open>
  \<^verbatim>\<open>float(s)\<close>. CPython first maps the string to ASCII: a code point below 127 stays,
  white space becomes a space, a decimal digit becomes the ASCII digit of its value and
  anything else a question mark. The model then reads the form \<^verbatim>\<open>digits[.digits]\<close> and
  raises \<^verbatim>\<open>ValueError\<close> on any other string; CPython reads more forms (signs,
  exponents, blanks around, underscores, \<^verbatim>\<open>inf\<close>, \<^verbatim>\<open>nan\<close>), so a parse that succeeds
  here succeeds there. The result is the decimal value of the literal as a real number;
  CPython returns the double nearest to it (\<^verbatim>\<open>inf\<close> beyond the range of doubles). The two
  agree where the decimal value is a double itself, as for a digit string of value up to
  \<open>2 ^ 53\<close>; the theorems below say which number an amount is on such literals only, and
  otherwise say of which captured group it is the \<^verbatim>\<open>float\<close>.
\<close>

definition to_ascii :: "tables \<Rightarrow> cp \<Rightarrow> cp" where
  "to_ascii U c =
     (if c < 127 then c
      else if isspace U c then 32
      else case todecimal U c of None \<Rightarrow> 63 | Some d \<Rightarrow> 48 + d)"

definition is_digit :: "cp \<Rightarrow> bool" where
  "is_digit c = (48 \<le> c \<and> c \<le> 57)"

definition digits_value :: "str \<Rightarrow> nat" where
  "digits_value ds = foldl (\<lambda>n c. 10 * n + (c - 48)) 0 ds"

definition float_literal :: "str \<Rightarrow> pyexn + real" where
  "float_literal s =
     (let whole = takeWhile is_digit s; rest = dropWhile is_digit s
      in if whole = [] then Inl ValueError
         else case rest of
                [] \<Rightarrow> Inr (real (digits_value whole))
              | c # fraction \<Rightarrow>
                  if c = 46 \<and> list_all is_digit fraction
                  then Inr (real (digits_value whole)
                            + real (digits_value fraction) / 10 ^ length fraction)
                  else Inl ValueError)"

definition py_float :: "tables \<Rightarrow> str \<Rightarrow> pyexn + real" where
  "py_float U s = float_literal (map (to_ascii U) s)"

definition amount_of :: "tables \<Rightarrow> match \<Rightarrow> pyexn + real" where
  \<comment> \<open>\<^verbatim>\<open>float(match.group(1).replace(',', ''))\<close>\<close>
  "amount_of U m =
     (case group1 m of
        None \<Rightarrow> Inl AttributeError
      | Some g \<Rightarrow> py_float U (replace_comma g))"

fun amount_loop :: "tables \<Rightarrow> regex list \<Rightarrow> str \<Rightarrow> pyexn + real" where
  \<comment> \<open>the \<^verbatim>\<open>for pattern in patterns\<close> loop and the \<^verbatim>\<open>return 0.0\<close> after it\<close>
  "amount_loop U [] sms_text = Inr 0"
| "amount_loop U (pattern # rest) sms_text =
     (case search U pattern (str_lower U sms_text) of
        Some m \<Rightarrow> amount_of U m
      | None \<Rightarrow> amount_loop U rest sms_text)"

definition extract_amount_from_sms :: "tables \<Rightarrow> str \<Rightarrow> pyexn + real" where
  "extract_amount_from_sms U sms_text = amount_loop U patterns sms_text"

section \<open>The MerchantExtractor: \<^verbatim>\<open>extract_merchant_from_sms\<close>\<close>

definition merchants :: "str list" where
  "merchants = map py [''swiggy'', ''zomato'', ''amazon'', ''flipkart'', ''netflix'', ''uber'',
                       ''ola'', ''pizza hut'', ''dominos'', ''mcdonald'', ''starbucks'',
                       ''big bazaar'', ''dmart'']"

fun contains :: "str \<Rightarrow> str \<Rightarrow> bool" where
  \<comment> \<open>\<^verbatim>\<open>sub in text\<close>\<close>
  "contains sub [] = (sub = [])"
| "contains sub (c # cs) = (take (length sub) (c # cs) = sub \<or> contains sub cs)"

text \<open>
  \<^verbatim>\<open>str.title\<close> on ASCII strings, which the merchants are: a letter after a letter is
  lower-cased, any other letter upper-cased.
\<close>

fun title_from :: "bool \<Rightarrow> str \<Rightarrow> str" where
  "title_from previous_is_cased [] = []"
| "title_from previous_is_cased (c # cs) =
     (if previous_is_cased then ascii_lower c else ascii_upper c) # title_from (ascii_cased c) cs"

definition title :: "str \<Rightarrow> str" where
  "title s = title_from False s"

fun merchant_loop :: "tables \<Rightarrow> str list \<Rightarrow> str \<Rightarrow> str" where
  "merchant_loop U [] sms_text = py ''Unknown Merchant''"
| "merchant_loop U (merchant # rest) sms_text =
     (if contains merchant (str_lower U sms_text) then title merchant
      else merchant_loop U rest sms_text)"

definition extract_merchant_from_sms :: "tables \<Rightarrow> str \<Rightarrow> str" where
  "extract_merchant_from_sms U sms_text = merchant_loop U merchants sms_text"

section \<open>The endpoint: \<^verbatim>\<open>categorize_sms\<close>\<close>

text \<open>
  The two globals that the start of the program sets: the loaded objects, or \<^verbatim>\<open>None\<close>
  twice when loading raised. A model has the two methods that the endpoint calls, the
  vectorizer its \<^verbatim>\<open>transform\<close>. They belong to the classifier library: a call may raise,
  and as a method of an object it may change the objects that were loaded. So a method
  takes its argument and the state \<open>'c\<close> of the loaded objects, and gives what it returns
  or raises and the state that it leaves. The labels of the model are strings. The
  endpoint assigns neither global.
\<close>

type_synonym ('a, 'b, 'c) bound_method = "'a \<Rightarrow> 'c \<Rightarrow> (pyexn + 'b) \<times> 'c"

record ('v, 'c) model =
  predict :: "('v, str list, 'c) bound_method"
  predict_proba :: "('v, real list list, 'c) bound_method"

record ('v, 'c) globals =
  model :: "('v, 'c) model option"
  vectorizer :: "(str list, 'v, 'c) bound_method option"

text \<open>
  The result dictionary: the five fields of an extraction result and the time of the
  call. Its \<^verbatim>\<open>'success': True\<close> is the constructor \<open>Result\<close> of the body.
\<close>

record extraction_result =
  category :: str
  confidence :: real
  amount :: real
  merchant :: str
  original_text :: str

record result = extraction_result +
  processed_at :: string

datatype errtext =
    Message string  \<comment> \<open>a message written in \<^verbatim>\<open>app.py\<close>\<close>
  | Str_of pyexn    \<comment> \<open>\<^verbatim>\<open>str(e)\<close>\<close>

datatype 'r body =
    Error errtext                    \<comment> \<open>\<^verbatim>\<open>{'error': ..., 'success': False}\<close>\<close>
  | Error_with_example errtext str   \<comment> \<open>the same with \<^verbatim>\<open>'example': {'sms_text': ...}\<close>\<close>
  | Result 'r
  | Internal_server_error            \<comment> \<open>the page that Flask sends when the endpoint raises\<close>

type_synonym 'r response = "'r body \<times> nat"  \<comment> \<open>the body and the HTTP status\<close>

fun falsy :: "json \<Rightarrow> bool" where
  \<comment> \<open>\<^verbatim>\<open>not data\<close>\<close>
  "falsy JNull = True"
| "falsy (JBool b) = (\<not> b)"
| "falsy (JNum x) = (x = 0)"
| "falsy (JStr s) = (s = [])"
| "falsy (JList xs) = (xs = [])"
| "falsy (JObj kvs) = (kvs = [])"

fun has_key :: "str \<Rightarrow> json \<Rightarrow> pyexn + bool" where
  \<comment> \<open>\<^verbatim>\<open>key in data\<close>\<close>
  "has_key k (JObj kvs) = Inr (k \<in> set (map fst kvs))"
| "has_key k (JList xs) = Inr (JStr k \<in> set xs)"
| "has_key k (JStr s) = Inr (contains k s)"
| "has_key k _ = Inl TypeError"

fun item :: "json \<Rightarrow> str \<Rightarrow> pyexn + json" where
  \<comment> \<open>\<^verbatim>\<open>data[key]\<close>, for a key that \<^verbatim>\<open>key in data\<close> has found\<close>
  "item (JObj kvs) k = (case map_of kvs k of Some v \<Rightarrow> Inr v | None \<Rightarrow> Inl KeyError)"
| "item _ k = Inl TypeError"

fun slice50 :: "json \<Rightarrow> pyexn + json" where
  \<comment> \<open>\<^verbatim>\<open>sms_text[:50]\<close>; on a dictionary the exception is a \<^verbatim>\<open>KeyError\<close> from Python 3.12 on\<close>
  "slice50 (JStr s) = Inr (JStr (take 50 s))"
| "slice50 (JList xs) = Inr (JList (take 50 xs))"
| "slice50 _ = Inl TypeError"

fun lowered :: "json \<Rightarrow> pyexn + str" where
  \<comment> \<open>the \<^verbatim>\<open>text.lower()\<close> of \<^verbatim>\<open>preprocess_text\<close> needs a string\<close>
  "lowered (JStr sms_text) = Inr sms_text"
| "lowered _ = Inl AttributeError"

fun first :: "'a list \<Rightarrow> pyexn + 'a" where
  \<comment> \<open>\<^verbatim>\<open>xs[0]\<close>\<close>
  "first [] = Inl IndexError"
| "first (x # xs) = Inr x"

fun py_max :: "real list \<Rightarrow> pyexn + real" where
  \<comment> \<open>\<^verbatim>\<open>max(xs)\<close>\<close>
  "py_max [] = Inl ValueError"
| "py_max (x # xs) = Inr (fold max xs x)"

text \<open>
  What running a piece of the program gives: what it returns, the lines that it has
  printed, and the state in which it leaves the loaded objects. A statement starts in a
  state of the objects, and \<open>returned\<close> is a value or the exception raised. A statement
  that raises ends the block it is in; what was printed and changed before stays so.
\<close>

record ('a, 'c) outcome =
  returned :: 'a
  printed :: "line list"
  objects :: 'c

type_synonym ('a, 'c) statement = "'c \<Rightarrow> (pyexn + 'a, 'c) outcome"

definition quiet :: "pyexn + 'a \<Rightarrow> ('a, 'c) statement" where
  \<comment> \<open>code of \<^verbatim>\<open>app.py\<close> that neither prints nor calls the classifier\<close>
  "quiet x c = \<lparr> returned = x, printed = [], objects = c \<rparr>"

definition call :: "('c \<Rightarrow> (pyexn + 'a) \<times> 'c) \<Rightarrow> ('a, 'c) statement" where
  \<comment> \<open>a call of a method of the classifier\<close>
  "call m c = \<lparr> returned = fst (m c), printed = [], objects = snd (m c) \<rparr>"

definition py_print :: "tables \<Rightarrow> line \<Rightarrow> (unit, 'c) statement" where
  \<comment> \<open>\<^verbatim>\<open>print\<close>: standard output is taken to be open\<close>
  "py_print U l c =
     (if print_raises U l then \<lparr> returned = Inl UnicodeEncodeError, printed = [], objects = c \<rparr>
      else \<lparr> returned = Inr (), printed = [l], objects = c \<rparr>)"

definition and_then :: "('a, 'c) statement \<Rightarrow> ('a \<Rightarrow> ('b, 'c) statement) \<Rightarrow> ('b, 'c) statement" where
  "and_then x f c =
     (let a = x c in
      case returned a of
        Inl e \<Rightarrow> \<lparr> returned = Inl e, printed = printed a, objects = objects a \<rparr>
      | Inr v \<Rightarrow>
          (let b = f v (objects a) in
           \<lparr> returned = returned b, printed = printed a @ printed b, objects = objects b \<rparr>))"

text \<open>
  The statements from the first \<^verbatim>\<open>print\<close> to the second, in the order of the source.
  \<open>round2\<close> is \<^verbatim>\<open>round(x, 2)\<close> and \<open>now\<close> what \<^verbatim>\<open>datetime.now().strftime(...)\<close> returns
  when this call reads the clock. \<^verbatim>\<open>jsonify\<close> is taken to accept the dictionary.
\<close>

definition process ::
    "('v, 'c) model \<Rightarrow> (str list, 'v, 'c) bound_method \<Rightarrow> (real \<Rightarrow> real) \<Rightarrow> string \<Rightarrow> tables \<Rightarrow> json
      \<Rightarrow> (result, 'c) statement" where
  "process m transform round2 now U sms =
     and_then (quiet (slice50 sms)) (\<lambda>shown.
     and_then (py_print U (Processing shown)) (\<lambda>line1.
     and_then (quiet (lowered sms)) (\<lambda>sms_text.
     and_then (call (transform [preprocess_text U sms_text])) (\<lambda>text_vector.
     and_then (call (predict m text_vector)) (\<lambda>predictions.
     and_then (quiet (first predictions)) (\<lambda>prediction.
     and_then (call (predict_proba m text_vector)) (\<lambda>rows.
     and_then (quiet (first rows)) (\<lambda>probabilities.
     and_then (quiet (py_max probabilities)) (\<lambda>conf.
     and_then (quiet (extract_amount_from_sms U sms_text)) (\<lambda>amt.
     and_then (quiet (Inr \<lparr> category = prediction, confidence = round2 conf, amount = amt,
                             merchant = extract_merchant_from_sms U sms_text,
                             original_text = sms_text, processed_at = now \<rparr>)) (\<lambda>result.
     and_then (py_print U (Result_line prediction conf)) (\<lambda>line2.
       quiet (Inr result)))))))))))))"

definition model_not_loaded :: "'r response" where
  "model_not_loaded = (Error (Message ''Model not loaded properly''), 500)"

definition missing_sms_text :: "'r response" where
  "missing_sms_text =
     (Error_with_example (Message ''Please provide sms_text in JSON'')
                         (py ''Rs 200 spent on Swiggy order''), 400)"

text \<open>
  The body of the \<^verbatim>\<open>try\<close>. \<open>get_json\<close> is what \<^verbatim>\<open>request.get_json()\<close> does for the
  request: it returns the parsed body or raises.
\<close>

definition attempt ::
    "('v, 'c) globals \<Rightarrow> (real \<Rightarrow> real) \<Rightarrow> string \<Rightarrow> tables \<Rightarrow> pyexn + json
      \<Rightarrow> (result response, 'c) statement" where
  "attempt G round2 now U get_json =
     (if model G = None \<or> vectorizer G = None then quiet (Inr model_not_loaded)
      else
        and_then (quiet get_json) (\<lambda>data.
        and_then (quiet (if falsy data then Inr False else has_key (py ''sms_text'') data)) (\<lambda>found.
          if \<not> found then quiet (Inr missing_sms_text)
          else
            and_then (quiet (item data (py ''sms_text''))) (\<lambda>sms.
            and_then (process (the (model G)) (the (vectorizer G)) round2 now U sms) (\<lambda>result.
              quiet (Inr (Result result, 200)))))))"

text \<open>
  The endpoint: the response, the lines printed and the state of the objects after the
  call. The \<^verbatim>\<open>except Exception\<close> clause prints the exception and answers with it; when
  that \<^verbatim>\<open>print\<close> raises, the exception leaves the endpoint and Flask answers.
\<close>

definition categorize_sms ::
    "('v, 'c) globals \<Rightarrow> (real \<Rightarrow> real) \<Rightarrow> string \<Rightarrow> tables \<Rightarrow> pyexn + json \<Rightarrow> 'c
      \<Rightarrow> (result response, 'c) outcome" where
  "categorize_sms G round2 now U get_json c =
     (let tried = attempt G round2 now U get_json c in
      case returned tried of
        Inr response \<Rightarrow>
          \<lparr> returned = response, printed = printed tried, objects = objects tried \<rparr>
      | Inl e \<Rightarrow>
          if print_raises U (Error_line e)
          then \<lparr> returned = (Internal_server_error, 500), printed = printed tried,
                 objects = objects tried \<rparr>
          else \<lparr> returned = (Error (Str_of e), 500), printed = printed tried @ [Error_line e],
                 objects = objects tried \<rparr>)"

definition extraction :: "result response \<Rightarrow> extraction_result response" where
  \<comment> \<open>a response without the time of the call\<close>
  "extraction r = (map_body extraction_result.truncate (fst r), snd r)"

text \<open>
  A classifier is read-only when no call of its methods changes the loaded objects.
\<close>

definition leaves_unchanged :: "('a, 'b, 'c) bound_method \<Rightarrow> bool" where
  "leaves_unchanged f = (\<forall>x c. snd (f x c) = c)"

definition read_only :: "('v, 'c) globals \<Rightarrow> bool" where
  "read_only G =
     ((case model G of
         None \<Rightarrow> True
       | Some m \<Rightarrow> leaves_unchanged (predict m) \<and> leaves_unchanged (predict_proba m))
      \<and> (case vectorizer G of None \<Rightarrow> True | Some transform \<Rightarrow> leaves_unchanged transform))"

section \<open>Facts about the tables\<close>

lemma ascii_exact_ascii_tables: "ascii_exact ascii_tables"
  by (simp add: ascii_exact_def ascii_tables_def)

lemma decimal_sane_ascii_tables: "decimal_sane ascii_tables"
  by (auto simp: decimal_sane_def ascii_tables_def ascii_todecimal_def ascii_isspace_def
           split: if_splits)

lemma lower_stable_ascii_tables: "lower_stable ascii_tables"
proof -
  have "map ascii_lower t = t" if "set t \<subseteq> insert 32 (set (map ascii_lower s))" for s t
  proof (rule map_idI)
    fix c assume "c \<in> set t"
    with that have "c = 32 \<or> (\<exists>d. c = ascii_lower d)" by auto
    then show "ascii_lower c = c" by (auto simp: ascii_lower_def split: if_splits)
  qed
  then show ?thesis by (simp add: lower_stable_def ascii_tables_def)
qed

section \<open>Substrings, \<^verbatim>\<open>split\<close> and \<^verbatim>\<open>join\<close>\<close>

lemma contains_iff: "contains sub t \<longleftrightarrow> (\<exists>ps ss. t = ps @ sub @ ss)"
proof (induction t)
  case Nil
  then show ?case by auto
next
  case (Cons c cs)
  show ?case
  proof
    assume "contains sub (c # cs)"
    then consider "take (length sub) (c # cs) = sub" | "contains sub cs" by auto
    then show "\<exists>ps ss. c # cs = ps @ sub @ ss"
    proof cases
      case 1
      then have "c # cs = [] @ sub @ drop (length sub) (c # cs)"
        by (metis append_Nil append_take_drop_id)
      then show ?thesis by blast
    next
      case 2
      with Cons.IH obtain ps ss where "cs = ps @ sub @ ss" by blast
      then have "c # cs = (c # ps) @ sub @ ss" by simp
      then show ?thesis by blast
    qed
  next
    assume "\<exists>ps ss. c # cs = ps @ sub @ ss"
    then obtain ps ss where eq: "c # cs = ps @ sub @ ss" by blast
    show "contains sub (c # cs)"
    proof (cases ps)
      case Nil
      with eq have "take (length sub) (c # cs) = sub" by simp
      then show ?thesis by simp
    next
      case (Cons p ps')
      with eq have "cs = ps' @ sub @ ss" by simp
      with Cons.IH have "contains sub cs" by blast
      then show ?thesis by simp
    qed
  qed
qed

lemma split_ws_words:
  "w \<in> set (split_ws U s) \<Longrightarrow> w \<noteq> [] \<and> (\<forall>c\<in>set w. \<not> isspace U c) \<and> set w \<subseteq> set s"
proof (induction U s rule: split_ws.induct)
  case (1 U)
  then show ?case by simp
next
  case (2 U c cs)
  show ?case
  proof (cases "isspace U c")
    case True
    with 2 show ?thesis by auto
  next
    case False
    with "2.prems" consider "w = c # takeWhile (\<lambda>x. \<not> isspace U x) cs"
      | "w \<in> set (split_ws U (dropWhile (\<lambda>x. \<not> isspace U x) cs))" by auto
    then show ?thesis
    proof cases
      case 1
      with False show ?thesis by (auto dest: set_takeWhileD)
    next
      case 2
      with "2.IH"(2) False
      have "w \<noteq> [] \<and> (\<forall>c\<in>set w. \<not> isspace U c)
            \<and> set w \<subseteq> set (dropWhile (\<lambda>x. \<not> isspace U x) cs)" by blast
      then show ?thesis by (auto dest: set_dropWhileD)
    qed
  qed
qed

lemma set_join: "set (join sep ws) \<subseteq> set sep \<union> \<Union> (set ` set ws)"
  by (induction sep ws rule: join.induct) auto

lemma join_Nil_iff: "\<forall>w\<in>set ws. w \<noteq> [] \<Longrightarrow> join sep ws = [] \<longleftrightarrow> ws = []"
  by (induction sep ws rule: join.induct) auto

lemma hd_join: "\<forall>w\<in>set ws. w \<noteq> [] \<Longrightarrow> ws \<noteq> [] \<Longrightarrow> hd (join sep ws) = hd (hd ws)"
  by (induction sep ws rule: join.induct) auto

lemma last_join: "\<forall>w\<in>set ws. w \<noteq> [] \<Longrightarrow> ws \<noteq> [] \<Longrightarrow> last (join sep ws) = last (last ws)"
  by (induction sep ws rule: join.induct) (auto simp: join_Nil_iff)

lemma contains_word_space:
  "32 \<notin> set w \<Longrightarrow> contains [32, 32] (w @ 32 # r) \<longleftrightarrow> (r \<noteq> [] \<and> hd r = 32) \<or> contains [32, 32] r"
proof (induction w)
  case Nil
  then show ?case by (cases r) auto
next
  case (Cons c w)
  then show ?case by auto
qed

lemma contains_word: "32 \<notin> set w \<Longrightarrow> \<not> contains [32, 32] w"
  by (induction w) auto

lemma join_single_spaces:
  "\<forall>w\<in>set ws. w \<noteq> [] \<and> 32 \<notin> set w \<Longrightarrow> \<not> contains [32, 32] (join [32] ws)"
proof (induction "[32 :: cp]" ws rule: join.induct)
  case 1
  then show ?case by simp
next
  case (2 w)
  then show ?case by (simp add: contains_word)
next
  case (3 w v vs)
  from "3.prems" have "hd (join [32] (v # vs)) = hd v" by (simp add: hd_join)
  moreover from "3.prems" have "hd v \<noteq> 32" by (cases v) auto
  moreover from 3 have "\<not> contains [32, 32] (join [32] (v # vs))" by simp
  moreover from "3.prems" have "32 \<notin> set w" by simp
  ultimately show ?case by (simp add: contains_word_space)
qed

lemma split_ws_word_space:
  assumes "w \<noteq> []" "\<forall>c\<in>set w. \<not> isspace U c" "isspace U x"
  shows "split_ws U (w @ x # r) = w # split_ws U r"
proof -
  from assms(1) obtain c w' where w: "w = c # w'" by (cases w) auto
  with assms(2) have c: "\<not> isspace U c" and w': "\<forall>c\<in>set w'. \<not> isspace U c" by auto
  from w' have t: "takeWhile (\<lambda>x. \<not> isspace U x) (w' @ x # r) = w'"
    using assms(3) by (simp add: takeWhile_append2)
  from w' have d: "dropWhile (\<lambda>x. \<not> isspace U x) (w' @ x # r) = x # r"
    using assms(3) by (simp add: dropWhile_append2)
  show ?thesis unfolding w using c assms(3) by (simp add: t d)
qed

lemma split_ws_word:
  assumes "w \<noteq> []" "\<forall>c\<in>set w. \<not> isspace U c"
  shows "split_ws U w = [w]"
proof -
  from assms(1) obtain c w' where w: "w = c # w'" by (cases w) auto
  with assms(2) have c: "\<not> isspace U c" and w': "\<forall>c\<in>set w'. \<not> isspace U c" by auto
  from w' have t: "takeWhile (\<lambda>x. \<not> isspace U x) w' = w'" by simp
  from w' have d: "dropWhile (\<lambda>x. \<not> isspace U x) w' = []" by simp
  show ?thesis unfolding w using c by (simp add: t d)
qed

lemma split_ws_join:
  "isspace U 32 \<Longrightarrow> \<forall>w\<in>set ws. w \<noteq> [] \<and> (\<forall>c\<in>set w. \<not> isspace U c) \<Longrightarrow>
   split_ws U (join [32] ws) = ws"
proof (induction "[32 :: cp]" ws rule: join.induct)
  case 1
  then show ?case by simp
next
  case (2 w)
  then show ?case by (simp add: split_ws_word)
next
  case (3 w v vs)
  then have "split_ws U (join [32] (v # vs)) = v # vs" by simp
  with 3 show ?case by (simp add: split_ws_word_space)
qed

lemma sub_nonword_chars:
  "c \<in> set (sub_nonword U s) \<Longrightarrow> c = 32 \<or> ((is_word U c \<or> isspace U c) \<and> c \<in> set s)"
  by (auto simp: sub_nonword_def split: if_splits)

lemma preprocess_text_words:
  assumes "isspace U 32" "w \<in> set (split_ws U (sub_nonword U (str_lower U text)))"
  shows "w \<noteq> [] \<and> (\<forall>c\<in>set w. \<not> isspace U c \<and> is_word U c \<and> c \<in> set (str_lower U text))"
proof -
  from split_ws_words [OF assms(2)]
  have w: "w \<noteq> []" "\<forall>c\<in>set w. \<not> isspace U c" "set w \<subseteq> set (sub_nonword U (str_lower U text))"
    by auto
  have "is_word U c \<and> c \<in> set (str_lower U text)" if "c \<in> set w" for c
  proof -
    from that w have "\<not> isspace U c" "c \<in> set (sub_nonword U (str_lower U text))" by auto
    with sub_nonword_chars [of c U "str_lower U text"] assms(1) show ?thesis by auto
  qed
  with w show ?thesis by blast
qed

section \<open>What the matcher returns\<close>

lemma in_matches_Cat:
  "m \<in> set (matches U (Cat a b) s) \<longleftrightarrow>
   (\<exists>m1\<in>set (matches U a s). \<exists>m2\<in>set (matches U b (fst m1)).
      m = (fst m2, later_group (snd m1) (snd m2)))"
  by auto

lemma in_matches_StarD:
  "m \<in> set (matches U (Star a) s) \<Longrightarrow>
   m = (s, None) \<or>
   (\<exists>m1\<in>set (matches U a s). length (fst m1) < length s \<and> m \<in> set (matches U (Star a) (fst m1)))"
  by (subst (asm) matches.simps(7)) (auto split: if_splits)

lemma matches_suffix: "m \<in> set (matches U r s) \<Longrightarrow> \<exists>u. s = u @ fst m"
proof (induction U r s arbitrary: m rule: matches.induct)
  case (5 U a b s)
  from "5.prems" obtain m1 m2 where m1: "m1 \<in> set (matches U a s)"
    and m2: "m2 \<in> set (matches U b (fst m1))" and m: "fst m = fst m2"
    unfolding in_matches_Cat by auto
  from "5.IH"(1) [OF m1] obtain u where "s = u @ fst m1" by blast
  moreover from "5.IH"(2) [OF m1 m2] obtain v where "fst m1 = v @ fst m2" by blast
  ultimately have "s = (u @ v) @ fst m" using m by simp
  then show ?case by blast
next
  case (7 U a s)
  from in_matches_StarD [OF "7.prems"(1)] consider "m = (s, None)"
    | m1 where "m1 \<in> set (matches U a s)" "length (fst m1) < length s"
        "m \<in> set (matches U (Star a) (fst m1))"
    by blast
  then show ?case
  proof cases
    case 1
    then show ?thesis by simp
  next
    case 2
    from "7.IH"(1) [OF 2(1)] obtain u where "s = u @ fst m1" by blast
    moreover from "7.IH"(2) [OF 2] obtain v where "fst m1 = v @ fst m" by blast
    ultimately have "s = (u @ v) @ fst m" by simp
    then show ?thesis by blast
  qed
qed (auto split: list.splits if_splits)

lemma matches_no_group:
  "\<not> has_group r \<Longrightarrow> m \<in> set (matches U r s) \<Longrightarrow> snd m = None"
proof (induction U r s arbitrary: m rule: matches.induct)
  case (5 U a b s)
  from "5.prems" obtain m1 m2 where m1: "m1 \<in> set (matches U a s)"
    and m2: "m2 \<in> set (matches U b (fst m1))" and m: "snd m = later_group (snd m1) (snd m2)"
    unfolding in_matches_Cat by auto
  from "5.prems" "5.IH"(1) [OF _ m1] have "snd m1 = None" by simp
  moreover from "5.prems" "5.IH"(2) [OF m1 _ m2] have "snd m2 = None" by simp
  ultimately show ?case using m by simp
next
  case (7 U a s)
  from in_matches_StarD [OF "7.prems"(2)] consider "m = (s, None)"
    | m1 where "m1 \<in> set (matches U a s)" "length (fst m1) < length s"
        "m \<in> set (matches U (Star a) (fst m1))"
    by blast
  then show ?case
  proof cases
    case 1
    then show ?thesis by simp
  next
    case 2
    with "7.IH"(2) [OF 2(1,2) _ 2(3)] "7.prems" show ?thesis by simp
  qed
qed (auto split: list.splits if_splits)

lemma matches_group_subset:
  "m \<in> set (matches U r s) \<Longrightarrow> snd m = Some g \<Longrightarrow> set g \<subseteq> set s"
proof (induction U r s arbitrary: m g rule: matches.induct)
  case (5 U a b s)
  from "5.prems" obtain m1 m2 where m1: "m1 \<in> set (matches U a s)"
    and m2: "m2 \<in> set (matches U b (fst m1))" and m: "snd m = later_group (snd m1) (snd m2)"
    unfolding in_matches_Cat by auto
  from matches_suffix [OF m1] have sub: "set (fst m1) \<subseteq> set s" by auto
  show ?case
  proof (cases "snd m2")
    case None
    with m "5.prems" have "snd m1 = Some g" by simp
    with "5.IH"(1) [OF m1] show ?thesis by simp
  next
    case (Some h)
    with m "5.prems" have "snd m2 = Some g" by simp
    with "5.IH"(2) [OF m1 m2] sub show ?thesis by blast
  qed
next
  case (7 U a s)
  from in_matches_StarD [OF "7.prems"(1)] consider "m = (s, None)"
    | m1 where "m1 \<in> set (matches U a s)" "length (fst m1) < length s"
        "m \<in> set (matches U (Star a) (fst m1))"
    by blast
  then show ?case
  proof cases
    case 1
    with "7.prems" show ?thesis by simp
  next
    case 2
    from matches_suffix [OF 2(1)] have "set (fst m1) \<subseteq> set s" by auto
    with "7.IH"(2) [OF 2 "7.prems"(2)] show ?thesis by blast
  qed
next
  case (6 U a b s)
  from "6.prems" have "m \<in> set (matches U a s) \<or> m \<in> set (matches U b s)" by simp
  with 6 show ?case by blast
next
  case (8 U a s)
  then show ?case by (auto dest: in_set_takeD)
qed (auto split: list.splits if_splits)

text \<open>
  The text that a pattern without a group consumes: the input is that text followed by
  the text left over.
\<close>

lemma consumes_weaken:
  "snd m = None \<and> (\<exists>u. s = u @ fst m \<and> P u) \<Longrightarrow> (\<And>u. P u \<Longrightarrow> Q u) \<Longrightarrow>
   snd m = None \<and> (\<exists>u. s = u @ fst m \<and> Q u)"
  by blast

lemma consumes_Chr:
  "m \<in> set (matches U (Chr c) s) \<Longrightarrow> snd m = None \<and> (\<exists>u. s = u @ fst m \<and> u = [c])"
  by (auto split: list.splits if_splits)

lemma consumes_Dig:
  "m \<in> set (matches U Dig s) \<Longrightarrow>
   snd m = None \<and> (\<exists>u. s = u @ fst m \<and> (\<exists>d. u = [d] \<and> is_decimal U d))"
  by (auto split: list.splits if_splits)

lemma consumes_Cat:
  assumes a: "\<And>s m. m \<in> set (matches U a s) \<Longrightarrow> snd m = None \<and> (\<exists>u. s = u @ fst m \<and> P u)"
      and b: "\<And>s m. m \<in> set (matches U b s) \<Longrightarrow> snd m = None \<and> (\<exists>u. s = u @ fst m \<and> Q u)"
      and m: "m \<in> set (matches U (Cat a b) s)"
  shows "snd m = None \<and> (\<exists>w. s = w @ fst m \<and> (\<exists>u v. w = u @ v \<and> P u \<and> Q v))"
proof -
  from m obtain m1 m2 where m1: "m1 \<in> set (matches U a s)"
    and m2: "m2 \<in> set (matches U b (fst m1))"
    and eq: "m = (fst m2, later_group (snd m1) (snd m2))"
    unfolding in_matches_Cat by blast
  from a [OF m1] obtain u where u: "snd m1 = None" "s = u @ fst m1" "P u" by blast
  from b [OF m2] obtain v where v: "snd m2 = None" "fst m1 = v @ fst m2" "Q v" by blast
  from u v eq have "snd m = None" "s = (u @ v) @ fst m" by simp_all
  with u v show ?thesis by blast
qed

lemma consumes_Star:
  assumes a: "\<And>s m. m \<in> set (matches U a s) \<Longrightarrow> snd m = None \<and> (\<exists>u. s = u @ fst m \<and> P u)"
      and nil: "Q []" and app: "\<And>u v. P u \<Longrightarrow> Q v \<Longrightarrow> Q (u @ v)"
  shows "m \<in> set (matches U (Star a) s) \<Longrightarrow> snd m = None \<and> (\<exists>u. s = u @ fst m \<and> Q u)"
proof (induction s rule: length_induct)
  case (1 s)
  from in_matches_StarD [OF "1.prems"] consider "m = (s, None)"
    | m1 where "m1 \<in> set (matches U a s)" "length (fst m1) < length s"
        "m \<in> set (matches U (Star a) (fst m1))"
    by blast
  then show ?case
  proof cases
    case 1
    with nil show ?thesis by auto
  next
    case 2
    from a [OF 2(1)] obtain u where u: "s = u @ fst m1" "P u" by blast
    from "1.IH" 2 obtain v where v: "snd m = None" "fst m1 = v @ fst m" "Q v" by blast
    from u v have "s = (u @ v) @ fst m" by simp
    with u v app show ?thesis by blast
  qed
qed

lemma consumes_Star_Dig:
  assumes "m \<in> set (matches U (Star Dig) s)"
  shows "snd m = None \<and> (\<exists>u. s = u @ fst m \<and> list_all (is_decimal U) u)"
  using consumes_Dig _ _ assms by (rule consumes_Star) auto

lemma consumes_digits:
  assumes "m \<in> set (matches U (Plus1 Dig) s)"
  shows "snd m = None \<and> (\<exists>u. s = u @ fst m \<and> u \<noteq> [] \<and> list_all (is_decimal U) u)"
  using consumes_Cat [OF consumes_Dig consumes_Star_Dig assms [unfolded Plus1_def]]
  by (rule consumes_weaken) auto

lemma consumes_comma_digits:
  assumes "m \<in> set (matches U (Cat (Chr 44) (Plus1 Dig)) s)"
  shows "snd m = None \<and> (\<exists>u. s = u @ fst m \<and> list_all (\<lambda>c. c = 44 \<or> is_decimal U c) u)"
  using consumes_Cat [OF consumes_Chr consumes_digits assms]
  by (rule consumes_weaken) (auto simp: list_all_iff)

lemma consumes_thousands:
  assumes "m \<in> set (matches U (Star (Cat (Chr 44) (Plus1 Dig))) s)"
  shows "snd m = None \<and> (\<exists>u. s = u @ fst m \<and> list_all (\<lambda>c. c = 44 \<or> is_decimal U c) u)"
  using consumes_comma_digits _ _ assms by (rule consumes_Star) auto

lemma consumes_two_digits:
  assumes "m \<in> set (matches U (Cat Dig Dig) s)"
  shows "snd m = None \<and> (\<exists>u. s = u @ fst m \<and> (\<exists>a b. u = [a, b] \<and> is_decimal U a \<and> is_decimal U b))"
  using consumes_Cat [OF consumes_Dig consumes_Dig assms]
  by (rule consumes_weaken) auto

lemma consumes_fraction:
  assumes "m \<in> set (matches U (Opt (Cat (Chr 46) (Cat Dig Dig))) s)"
  shows "snd m = None \<and>
         (\<exists>u. s = u @ fst m \<and> (u = [] \<or> (\<exists>a b. u = [46, a, b] \<and> is_decimal U a \<and> is_decimal U b)))"
proof -
  from assms consider "m = (s, None)" | "m \<in> set (matches U (Cat (Chr 46) (Cat Dig Dig)) s)"
    by (auto simp: Opt_def)
  then show ?thesis
  proof cases
    case 1
    then show ?thesis by simp
  next
    case 2
    from consumes_Cat [OF consumes_Chr consumes_two_digits 2]
    show ?thesis by (rule consumes_weaken) auto
  qed
qed

lemma consumes_number:
  assumes "m \<in> set (matches U number s)"
  shows "snd m = None \<and>
         (\<exists>u. s = u @ fst m \<and>
            (\<exists>w c f. u = w @ c @ f \<and> w \<noteq> [] \<and> list_all (is_decimal U) w
                  \<and> list_all (\<lambda>c. c = 44 \<or> is_decimal U c) c
                  \<and> (f = [] \<or> (\<exists>a b. f = [46, a, b] \<and> is_decimal U a \<and> is_decimal U b))))"
proof -
  have tail: "snd m = None \<and>
      (\<exists>u. s = u @ fst m \<and>
           (\<exists>c f. u = c @ f \<and> list_all (\<lambda>c. c = 44 \<or> is_decimal U c) c
                  \<and> (f = [] \<or> (\<exists>a b. f = [46, a, b] \<and> is_decimal U a \<and> is_decimal U b))))"
    if m: "m \<in> set (matches U (Cat (Star (Cat (Chr 44) (Plus1 Dig)))
                                  (Opt (Cat (Chr 46) (Cat Dig Dig)))) s)" for m s
    using consumes_Cat [OF consumes_thousands consumes_fraction m]
    by (rule consumes_weaken) blast
  from consumes_Cat [OF consumes_digits tail assms [unfolded number_def]]
  show ?thesis
  proof (rule consumes_weaken)
    fix u
    assume "\<exists>ua v. u = ua @ v \<and> (ua \<noteq> [] \<and> list_all (is_decimal U) ua) \<and>
            (\<exists>c f. v = c @ f \<and> list_all (\<lambda>c. c = 44 \<or> is_decimal U c) c
                  \<and> (f = [] \<or> (\<exists>a b. f = [46, a, b] \<and> is_decimal U a \<and> is_decimal U b)))"
    then obtain w c f where "u = w @ c @ f" "w \<noteq> []" "list_all (is_decimal U) w"
        "list_all (\<lambda>c. c = 44 \<or> is_decimal U c) c"
        "f = [] \<or> (\<exists>a b. f = [46, a, b] \<and> is_decimal U a \<and> is_decimal U b)"
      by blast
    then show "\<exists>w c f. u = w @ c @ f \<and> w \<noteq> [] \<and> list_all (is_decimal U) w
                  \<and> list_all (\<lambda>c. c = 44 \<or> is_decimal U c) c
                  \<and> (f = [] \<or> (\<exists>a b. f = [46, a, b] \<and> is_decimal U a \<and> is_decimal U b))"
      by blast
  qed
qed

lemma to_ascii_decimal:
  assumes "decimal_sane U" "is_decimal U c"
  shows "is_digit (to_ascii U c)"
proof -
  from assms(2) obtain d where d: "todecimal U c = Some d" by (auto simp: is_decimal_def)
  with assms(1) have "d < 10" "\<not> isspace U c" "c < 127 \<longrightarrow> 48 \<le> c \<and> c \<le> 57"
    unfolding decimal_sane_def by blast+
  with d show ?thesis by (simp add: to_ascii_def is_digit_def)
qed

lemma decimal_not_comma: "decimal_sane U \<Longrightarrow> is_decimal U c \<Longrightarrow> c \<noteq> 44"
  unfolding decimal_sane_def is_decimal_def by fastforce

lemma float_literal_ok:
  assumes "x \<noteq> []" "list_all is_digit x"
      and "f = [] \<or> (\<exists>a b. f = [46, a, b] \<and> is_digit a \<and> is_digit b)"
  shows "\<exists>v. float_literal (x @ f) = Inr v"
proof -
  from assms(3) have f: "takeWhile is_digit f = []" "dropWhile is_digit f = f"
    by (auto simp: is_digit_def)
  from assms(2) have "takeWhile is_digit (x @ f) = x" "dropWhile is_digit (x @ f) = f"
    by (simp_all add: takeWhile_append2 dropWhile_append2 list_all_iff f)
  with assms(1,3) show ?thesis
    by (auto simp: float_literal_def)
qed

lemma py_float_ok:
  assumes sane: "decimal_sane U"
      and w: "w \<noteq> []" "list_all (is_decimal U) w"
      and c: "list_all (\<lambda>x. x = 44 \<or> is_decimal U x) c"
      and f: "f = [] \<or> (\<exists>a b. f = [46, a, b] \<and> is_decimal U a \<and> is_decimal U b)"
  shows "\<exists>v. py_float U (replace_comma (w @ c @ f)) = Inr v"
proof -
  from sane w(2) have "replace_comma w = w"
    by (auto simp: replace_comma_def list_all_iff dest: decimal_not_comma intro: filter_True)
  moreover from sane f have "replace_comma f = f"
    by (auto simp: replace_comma_def dest: decimal_not_comma)
  ultimately have split: "map (to_ascii U) (replace_comma (w @ c @ f))
      = (map (to_ascii U) w @ map (to_ascii U) (replace_comma c)) @ map (to_ascii U) f"
    by (simp add: replace_comma_def)
  from c have "list_all (is_decimal U) (replace_comma c)"
    by (auto simp: replace_comma_def list_all_iff)
  with sane w have "map (to_ascii U) w @ map (to_ascii U) (replace_comma c) \<noteq> []"
      "list_all is_digit (map (to_ascii U) w @ map (to_ascii U) (replace_comma c))"
    by (auto simp: list_all_iff dest: to_ascii_decimal)
  moreover have "to_ascii U 46 = 46" by (simp add: to_ascii_def)
  with sane f have "map (to_ascii U) f = [] \<or>
      (\<exists>a b. map (to_ascii U) f = [46, a, b] \<and> is_digit a \<and> is_digit b)"
    by (auto dest: to_ascii_decimal)
  ultimately show ?thesis
    unfolding py_float_def split by (rule float_literal_ok)
qed

lemma group_number:
  assumes "decimal_sane U" "m \<in> set (matches U (Grp number) s)"
  shows "\<exists>g. snd m = Some g \<and> (\<exists>v. py_float U (replace_comma g) = Inr v)"
proof -
  from assms(2) obtain m1 where m1: "m1 \<in> set (matches U number s)"
    and m: "m = (fst m1, Some (take (length s - length (fst m1)) s))" by auto
  from consumes_number [OF m1] obtain w c f where s: "s = (w @ c @ f) @ fst m1"
    and shape: "w \<noteq> []" "list_all (is_decimal U) w" "list_all (\<lambda>x. x = 44 \<or> is_decimal U x) c"
      "f = [] \<or> (\<exists>a b. f = [46, a, b] \<and> is_decimal U a \<and> is_decimal U b)"
    by blast
  from s have "take (length s - length (fst m1)) s = w @ c @ f"
    by (metis add_diff_cancel_right' append_eq_conv_conj length_append)
  with m py_float_ok [OF assms(1) shape] show ?thesis by simp
qed

lemma group_Cat_right:
  assumes b: "\<And>s m. m \<in> set (matches U b s) \<Longrightarrow> \<exists>g. snd m = Some g \<and> Q g"
      and m: "m \<in> set (matches U (Cat a b) s)"
  shows "\<exists>g. snd m = Some g \<and> Q g"
proof -
  from m obtain m1 m2 where "m2 \<in> set (matches U b (fst m1))"
    and "m = (fst m2, later_group (snd m1) (snd m2))"
    unfolding in_matches_Cat by blast
  with b [of m2 "fst m1"] show ?thesis by auto
qed

lemma group_Cat_left:
  assumes a: "\<And>s m. m \<in> set (matches U a s) \<Longrightarrow> \<exists>g. snd m = Some g \<and> Q g"
      and b: "\<not> has_group b"
      and m: "m \<in> set (matches U (Cat a b) s)"
  shows "\<exists>g. snd m = Some g \<and> Q g"
proof -
  from m obtain m1 m2 where m1: "m1 \<in> set (matches U a s)"
    and m2: "m2 \<in> set (matches U b (fst m1))"
    and eq: "m = (fst m2, later_group (snd m1) (snd m2))"
    unfolding in_matches_Cat by blast
  from matches_no_group [OF b m2] have "snd m2 = None" .
  with a [OF m1] eq show ?thesis by auto
qed

lemma no_group_lit: "\<not> has_group (lit w)"
  by (induction w) (auto simp: lit_def)

lemma no_group_marker: "\<not> has_group marker"
  by (simp add: marker_def Opt_def no_group_lit)

lemma group_patterns:
  assumes grp: "\<And>s m. m \<in> set (matches U (Grp number) s) \<Longrightarrow> \<exists>g. snd m = Some g \<and> Q g"
      and p: "p \<in> set patterns" and m: "m \<in> set (matches U p s)"
  shows "\<exists>g. snd m = Some g \<and> Q g"
proof -
  have spaces_grp: "\<exists>g. snd m = Some g \<and> Q g"
    if "m \<in> set (matches U (Cat (Star Spc) (Grp number)) s)" for m s
    using grp that by (rule group_Cat_right [where Q = Q])
  from p consider "p = marker_number" | "p = number_marker" | w where "p = keyword w"
    unfolding patterns_def by auto
  then show ?thesis
  proof cases
    case 1
    with m have "m \<in> set (matches U (Cat marker (Cat (Star Spc) (Grp number))) s)"
      by (simp only: marker_number_def)
    with spaces_grp show ?thesis by (rule group_Cat_right [where Q = Q])
  next
    case 2
    have no: "\<not> has_group (Cat (Star Spc) marker)" by (simp add: no_group_marker)
    from 2 m have "m \<in> set (matches U (Cat (Grp number) (Cat (Star Spc) marker)) s)"
      by (simp only: number_marker_def)
    with grp no show ?thesis by (rule group_Cat_left [where Q = Q])
  next
    case 3
    have marker_grp: "\<exists>g. snd m = Some g \<and> Q g"
      if "m \<in> set (matches U (Cat (Opt marker) (Cat (Star Spc) (Grp number))) s)" for m s
      using spaces_grp that by (rule group_Cat_right [where Q = Q])
    have spaces_marker_grp: "\<exists>g. snd m = Some g \<and> Q g"
      if "m \<in> set (matches U (Cat (Star Spc) (Cat (Opt marker) (Cat (Star Spc) (Grp number)))) s)"
      for m s
      using marker_grp that by (rule group_Cat_right [where Q = Q])
    from 3 m have "m \<in> set (matches U (Cat (lit w) (Cat (Star Spc) (Cat (Opt marker)
                                   (Cat (Star Spc) (Grp number))))) s)"
      by (simp only: keyword_def)
    with spaces_marker_grp show ?thesis by (rule group_Cat_right [where Q = Q])
  qed
qed

lemma search_Some:
  "search U p t = Some m \<Longrightarrow>
   \<exists>u s m'. t = u @ s \<and> m' \<in> set (matches U p s) \<and> m = Match (snd m')"
proof (induction t)
  case Nil
  then obtain m' ms where "matches U p [] = m' # ms" "m = Match (snd m')"
    by (auto split: list.splits)
  moreover from this have "m' \<in> set (matches U p [])" by simp
  ultimately show ?case by blast
next
  case (Cons c cs)
  show ?case
  proof (cases "matches U p (c # cs)")
    case Nil
    with Cons obtain u s m' where "cs = u @ s" "m' \<in> set (matches U p s)" "m = Match (snd m')"
      by auto
    then have "c # cs = (c # u) @ s \<and> m' \<in> set (matches U p s) \<and> m = Match (snd m')"
      by simp
    then show ?thesis by blast
  next
    case (Cons m' ms)
    with Cons.prems have "m = Match (snd m')" by simp
    moreover from Cons have "m' \<in> set (matches U p (c # cs))" by simp
    ultimately have "c # cs = [] @ (c # cs) \<and> m' \<in> set (matches U p (c # cs))
                     \<and> m = Match (snd m')" by simp
    then show ?thesis by blast
  qed
qed

lemma amount_of_ok:
  assumes "decimal_sane U" "p \<in> set patterns" "search U p t = Some m"
  shows "\<exists>g v. group1 m = Some g \<and> py_float U (replace_comma g) = Inr v \<and> amount_of U m = Inr v"
proof -
  from search_Some [OF assms(3)] obtain u s m' where m': "m' \<in> set (matches U p s)"
    and m: "m = Match (snd m')"
    by blast
  have "\<exists>g. snd m' = Some g \<and> (\<exists>v. py_float U (replace_comma g) = Inr v)"
    using group_number [OF assms(1)] assms(2) m'
    by (rule group_patterns [where Q = "\<lambda>g. \<exists>v. py_float U (replace_comma g) = Inr v"])
  with m show ?thesis by (auto simp: amount_of_def)
qed

lemma amount_loop_cases:
  "amount_loop U ps text = Inr 0 \<and> (\<forall>p\<in>set ps. search U p (str_lower U text) = None)
   \<or> (\<exists>p\<in>set ps. \<exists>m. search U p (str_lower U text) = Some m \<and> amount_loop U ps text = amount_of U m)"
  by (induction ps) (auto split: option.splits)

lemma amount_loop_first:
  "i < length ps \<Longrightarrow> \<forall>j<i. search U (ps ! j) (str_lower U text) = None \<Longrightarrow>
   search U (ps ! i) (str_lower U text) = Some m \<Longrightarrow> amount_loop U ps text = amount_of U m"
proof (induction ps arbitrary: i)
  case Nil
  then show ?case by simp
next
  case (Cons p ps)
  show ?case
  proof (cases i)
    case 0
    with Cons.prems show ?thesis by simp
  next
    case (Suc k)
    from Cons.prems Suc have "search U p (str_lower U text) = None" by auto
    moreover from Cons.prems Suc have "amount_loop U ps text = amount_of U m"
      by (intro Cons.IH [of k]) auto
    ultimately show ?thesis by simp
  qed
qed

section \<open>ASCII texts need the ASCII range of the tables only\<close>

lemma is_ascii_suffix: "is_ascii (u @ v) \<Longrightarrow> is_ascii v"
  by (simp add: is_ascii_def)

lemma matches_is_ascii: "m \<in> set (matches U r s) \<Longrightarrow> is_ascii s \<Longrightarrow> is_ascii (fst m)"
  using matches_suffix is_ascii_suffix by metis

lemma matches_ascii:
  "ascii_exact U \<Longrightarrow> is_ascii s \<Longrightarrow> matches U r s = matches ascii_tables r s"
proof (induction U r s rule: matches.induct)
  case (3 U s)
  then show ?case
    by (cases s) (auto simp: ascii_exact_def is_ascii_def is_decimal_def ascii_tables_def)
next
  case (4 U s)
  then show ?case
    by (cases s) (auto simp: ascii_exact_def is_ascii_def ascii_tables_def)
next
  case (5 U a b s)
  then have a: "matches U a s = matches ascii_tables a s" by simp
  have "matches U b (fst m1) = matches ascii_tables b (fst m1)"
    if "m1 \<in> set (matches ascii_tables a s)" for m1
    using that "5.IH"(2) "5.prems" matches_is_ascii unfolding a by blast
  then have eq:
    "map (\<lambda>m1. map (\<lambda>m2. (fst m2, later_group (snd m1) (snd m2))) (matches U b (fst m1)))
         (matches ascii_tables a s)
     = map (\<lambda>m1. map (\<lambda>m2. (fst m2, later_group (snd m1) (snd m2)))
                      (matches ascii_tables b (fst m1)))
         (matches ascii_tables a s)"
    by (intro map_cong) simp_all
  show ?case by (simp only: matches.simps(5) a eq)
next
  case (7 U a s)
  then have a: "matches U a s = matches ascii_tables a s" by simp
  have "(if length (fst m1) < length s then matches U (Star a) (fst m1) else [])
        = (if length (fst m1) < length s then matches ascii_tables (Star a) (fst m1) else [])"
    if "m1 \<in> set (matches ascii_tables a s)" for m1
    using that "7.IH"(2) "7.prems" matches_is_ascii unfolding a by auto
  then have eq:
    "map (\<lambda>m1. if length (fst m1) < length s then matches U (Star a) (fst m1) else [])
         (matches ascii_tables a s)
     = map (\<lambda>m1. if length (fst m1) < length s
                    then matches ascii_tables (Star a) (fst m1) else [])
         (matches ascii_tables a s)"
    by (intro map_cong) simp_all
  show ?case
    by (simp only: matches.simps(7) [of U a s] matches.simps(7) [of ascii_tables a s] a eq)
qed simp_all

lemma search_ascii:
  "ascii_exact U \<Longrightarrow> is_ascii s \<Longrightarrow> search U r s = search ascii_tables r s"
proof (induction s)
  case Nil
  then show ?case by (simp add: matches_ascii)
next
  case (Cons c cs)
  then have rest: "search U r cs = search ascii_tables r cs" by (simp add: is_ascii_def)
  from Cons.prems show ?case by (simp add: matches_ascii rest split: list.splits)
qed

lemma search_group_subset:
  assumes "search U r t = Some m" "group1 m = Some g"
  shows "set g \<subseteq> set t"
proof -
  from search_Some [OF assms(1)] obtain u s m' where t: "t = u @ s"
    and m': "m' \<in> set (matches U r s)" and m: "m = Match (snd m')" by blast
  from m assms(2) have "snd m' = Some g" by simp
  with m' have "set g \<subseteq> set s" by (rule matches_group_subset)
  with t show ?thesis by auto
qed

lemma str_lower_ascii:
  "ascii_exact U \<Longrightarrow> is_ascii s \<Longrightarrow> str_lower U s = str_lower ascii_tables s"
  by (simp add: ascii_exact_def ascii_tables_def)

lemma is_ascii_lower: "is_ascii s \<Longrightarrow> is_ascii (str_lower ascii_tables s)"
  by (auto simp: is_ascii_def ascii_tables_def ascii_lower_def list_all_iff)

lemma to_ascii_ascii:
  "ascii_exact U \<Longrightarrow> c < 128 \<Longrightarrow> to_ascii U c = to_ascii ascii_tables c"
  by (simp add: to_ascii_def ascii_exact_def ascii_tables_def)

lemma amount_of_ascii:
  assumes "ascii_exact U" "is_ascii s" "search ascii_tables r s = Some m"
  shows "amount_of U m = amount_of ascii_tables m"
proof (cases "group1 m")
  case None
  then show ?thesis by (simp add: amount_of_def)
next
  case (Some g)
  with search_group_subset [OF assms(3)] assms(2) have "\<forall>c\<in>set g. c < 128"
    by (auto simp: is_ascii_def list_all_iff)
  then have eq: "map (to_ascii U) (replace_comma g) = map (to_ascii ascii_tables) (replace_comma g)"
    using assms(1) by (intro map_cong) (auto simp: replace_comma_def to_ascii_ascii)
  show ?thesis by (simp add: amount_of_def py_float_def Some eq)
qed

lemma amount_loop_ascii:
  assumes "ascii_exact U" "is_ascii text"
  shows "amount_loop U ps text = amount_loop ascii_tables ps text"
proof (induction ps)
  case Nil
  then show ?case by simp
next
  case (Cons p ps)
  from assms have lower: "str_lower U text = str_lower ascii_tables text"
    and ascii: "is_ascii (str_lower ascii_tables text)"
    by (simp_all add: str_lower_ascii is_ascii_lower)
  from assms(1) ascii
  have search: "search U p (str_lower ascii_tables text)
                = search ascii_tables p (str_lower ascii_tables text)"
    by (rule search_ascii)
  show ?case
  proof (cases "search ascii_tables p (str_lower ascii_tables text)")
    case None
    with Cons lower search show ?thesis by simp
  next
    case (Some m)
    with amount_of_ascii [OF assms(1) ascii] have "amount_of U m = amount_of ascii_tables m"
      by blast
    with Some lower search show ?thesis by simp
  qed
qed

lemma extract_amount_ascii:
  "ascii_exact U \<Longrightarrow> is_ascii text \<Longrightarrow>
   extract_amount_from_sms U text = extract_amount_from_sms ascii_tables text"
  by (simp add: extract_amount_from_sms_def amount_loop_ascii)

lemma extract_merchant_ascii:
  assumes "ascii_exact U" "is_ascii text"
  shows "extract_merchant_from_sms U text = extract_merchant_from_sms ascii_tables text"
proof -
  have "merchant_loop U ms text = merchant_loop ascii_tables ms text" for ms
    by (induction ms) (simp_all add: str_lower_ascii [OF assms])
  then show ?thesis by (simp add: extract_merchant_from_sms_def)
qed

lemma split_ws_ascii:
  "ascii_exact U \<Longrightarrow> is_ascii s \<Longrightarrow> split_ws U s = split_ws ascii_tables s"
proof (induction U s rule: split_ws.induct)
  case (1 U)
  then show ?case by simp
next
  case (2 U c cs)
  from "2.prems" have sp: "isspace U x = isspace ascii_tables x" if "x = c \<or> x \<in> set cs" for x
    using that by (auto simp: ascii_exact_def is_ascii_def ascii_tables_def list_all_iff)
  then have tw: "takeWhile (\<lambda>x. \<not> isspace U x) cs = takeWhile (\<lambda>x. \<not> isspace ascii_tables x) cs"
    and dw: "dropWhile (\<lambda>x. \<not> isspace U x) cs = dropWhile (\<lambda>x. \<not> isspace ascii_tables x) cs"
    by (auto intro: takeWhile_cong dropWhile_cong)
  from "2.prems" have cs: "is_ascii cs" by (simp add: is_ascii_def)
  then have "is_ascii (dropWhile (\<lambda>x. \<not> isspace U x) cs)"
    by (auto simp: is_ascii_def list_all_iff dest: set_dropWhileD)
  with 2 cs sp [of c] show ?case by (auto simp: tw dw)
qed

lemma preprocess_text_ascii:
  assumes "ascii_exact U" "is_ascii text"
  shows "preprocess_text U text = preprocess_text ascii_tables text"
proof -
  from assms have lower: "str_lower U text = str_lower ascii_tables text"
    and ascii: "is_ascii (str_lower ascii_tables text)"
    by (simp_all add: str_lower_ascii is_ascii_lower)
  have sub: "sub_nonword U s = sub_nonword ascii_tables s" if "is_ascii s" for s
    unfolding sub_nonword_def using that assms(1)
    by (intro map_cong)
       (auto simp: is_word_def ascii_exact_def is_ascii_def ascii_tables_def list_all_iff)
  have "is_ascii (sub_nonword ascii_tables s)" if "is_ascii s" for s
    using that by (auto simp: sub_nonword_def is_ascii_def list_all_iff)
  with ascii have "is_ascii (sub_nonword ascii_tables (str_lower ascii_tables text))" by blast
  with assms(1) have "split_ws U (sub_nonword ascii_tables (str_lower ascii_tables text))
        = split_ws ascii_tables (sub_nonword ascii_tables (str_lower ascii_tables text))"
    by (rule split_ws_ascii)
  with lower sub [OF ascii] show ?thesis by (simp add: preprocess_text_def)
qed

section \<open>The first match on a text of known shape\<close>

lemma first_Cat:
  assumes "matches U a s = (s1, g1) # r1" "matches U b s1 = (s2, g2) # r2"
  shows "\<exists>rest. matches U (Cat a b) s = (s2, later_group g1 g2) # rest"
  using assms by simp

lemma first_Star_step:
  assumes "matches U a (c # s) = [(s, None)]"
  shows "matches U (Star a) (c # s) = matches U (Star a) s @ [(c # s, None)]"
  by (subst matches.simps(7)) (simp add: assms)

lemma first_Star_stop:
  assumes "matches U a s = []"
  shows "matches U (Star a) s = [(s, None)]"
  by (subst matches.simps(7)) (simp add: assms)

lemma first_Star_Dig:
  assumes "list_all (is_decimal U) ds" "matches U Dig r = []"
  shows "\<exists>rest. matches U (Star Dig) (ds @ r) = (r, None) # rest"
  using assms(1)
proof (induction ds)
  case Nil
  with assms(2) show ?case by (simp add: first_Star_stop)
next
  case (Cons d ds)
  then obtain rest where "matches U (Star Dig) (ds @ r) = (r, None) # rest" by auto
  moreover from Cons.prems have "matches U Dig (d # ds @ r) = [(ds @ r, None)]" by simp
  ultimately show ?case by (simp add: first_Star_step)
qed

lemma first_Star_Spc:
  assumes "list_all (isspace U) sp" "matches U Spc r = []"
  shows "\<exists>rest. matches U (Star Spc) (sp @ r) = (r, None) # rest"
  using assms(1)
proof (induction sp)
  case Nil
  with assms(2) show ?case by (simp add: first_Star_stop)
next
  case (Cons c sp)
  then obtain rest where "matches U (Star Spc) (sp @ r) = (r, None) # rest" by auto
  moreover from Cons.prems have "matches U Spc (c # sp @ r) = [(sp @ r, None)]" by simp
  ultimately show ?case by (simp add: first_Star_step)
qed

lemma first_digits:
  assumes "ds \<noteq> []" "list_all (is_decimal U) ds" "matches U Dig r = []"
  shows "\<exists>rest. matches U (Plus1 Dig) (ds @ r) = (r, None) # rest"
proof -
  from assms(1) obtain d ds' where ds: "ds = d # ds'" by (cases ds) auto
  with assms(2) have "matches U Dig (ds @ r) = [(ds' @ r, None)]" by simp
  moreover from ds assms(2,3) obtain rest where "matches U (Star Dig) (ds' @ r) = (r, None) # rest"
    using first_Star_Dig [of U ds' r] by auto
  ultimately show ?thesis unfolding Plus1_def by simp
qed

lemma first_number_one_digit:
  assumes "ds \<noteq> []" "list_all (is_decimal U) ds" "\<not> is_decimal U 46"
  shows "\<exists>rest. matches U number (ds @ [46, d]) = ([46, d], None) # rest"
proof -
  from assms obtain r1 where 1: "matches U (Plus1 Dig) (ds @ [46, d]) = ([46, d], None) # r1"
    using first_digits [of ds U "[46, d]"] by auto
  have 2: "matches U (Star (Cat (Chr 44) (Plus1 Dig))) [46, d] = [([46, d], None)]"
    by (rule first_Star_stop) simp
  have 3: "matches U (Opt (Cat (Chr 46) (Cat Dig Dig))) [46, d] = [([46, d], None)]"
    by (simp add: Opt_def)
  from 2 3 have "matches U (Cat (Star (Cat (Chr 44) (Plus1 Dig)))
                              (Opt (Cat (Chr 46) (Cat Dig Dig)))) [46, d] = [([46, d], None)]"
    by simp
  with 1 show ?thesis unfolding number_def by simp
qed

lemma first_number_two_digits:
  assumes "ds \<noteq> []" "list_all (is_decimal U) ds" "\<not> is_decimal U 46"
      and "is_decimal U d" "is_decimal U e"
  shows "\<exists>rest. matches U number (ds @ [46, d, e]) = ([], None) # rest"
proof -
  from assms obtain r1 where 1: "matches U (Plus1 Dig) (ds @ [46, d, e]) = ([46, d, e], None) # r1"
    using first_digits [of ds U "[46, d, e]"] by auto
  have 2: "matches U (Star (Cat (Chr 44) (Plus1 Dig))) [46, d, e] = [([46, d, e], None)]"
    by (rule first_Star_stop) simp
  from assms(4,5)
  have 3: "matches U (Opt (Cat (Chr 46) (Cat Dig Dig))) [46, d, e] = [([], None), ([46, d, e], None)]"
    by (simp add: Opt_def)
  from 2 3 have "matches U (Cat (Star (Cat (Chr 44) (Plus1 Dig)))
                              (Opt (Cat (Chr 46) (Cat Dig Dig)))) [46, d, e]
                 = [([], None), ([46, d, e], None)]"
    by simp
  with 1 show ?thesis unfolding number_def by simp
qed

lemma first_spaces_group:
  assumes "list_all (isspace U) sp" "matches U Spc s = []"
      and "matches U number s = (r, None) # rest"
  shows "\<exists>rest'. matches U (Cat (Star Spc) (Grp number)) (sp @ s)
                   = (r, Some (take (length s - length r) s)) # rest'"
proof -
  from assms(1,2) obtain r1 where "matches U (Star Spc) (sp @ s) = (s, None) # r1"
    using first_Star_Spc by blast
  moreover from assms(3)
  have "matches U (Grp number) s = (r, Some (take (length s - length r) s))
          # map (\<lambda>m1. (fst m1, Some (take (length s - length (fst m1)) s))) rest"
    by simp
  ultimately show ?thesis using first_Cat [of U "Star Spc" "sp @ s" s None r1 "Grp number"] by simp
qed

lemma first_marker:
  assumes "mk \<in> {py ''rs'', py ''rs.'', py ''inr''}" "matches U (Chr 46) s = []"
  shows "\<exists>rest. matches U marker (mk @ s) = (s, None) # rest"
  using assms by (auto simp: marker_def lit_def Opt_def py_def)

lemma first_marker_number:
  assumes mk: "mk \<in> {py ''rs'', py ''rs.'', py ''inr''}"
      and sp: "list_all (isspace U) sp" "\<not> isspace U 46"
      and ds: "ds \<noteq> []" "list_all (is_decimal U) ds" "list_all (\<lambda>c. \<not> isspace U c) ds"
              "\<not> is_decimal U 46"
      and num: "matches U number (ds @ fr) = (r, None) # rest"
  shows "search U marker_number (mk @ sp @ ds @ fr)
         = Some (Match (Some (take (length (ds @ fr) - length r) (ds @ fr))))"
proof -
  from ds(1) obtain d ds' where d: "ds = d # ds'" by (cases ds) auto
  with ds have "matches U Spc (ds @ fr) = []" by simp
  with sp(1) num obtain r1 where 1: "matches U (Cat (Star Spc) (Grp number)) (sp @ ds @ fr)
      = (r, Some (take (length (ds @ fr) - length r) (ds @ fr))) # r1"
    using first_spaces_group [of U sp "ds @ fr" r rest] by auto
  have "matches U (Chr 46) (sp @ ds @ fr) = []"
  proof (cases sp)
    case Nil
    with d ds show ?thesis by (auto simp: is_decimal_def)
  next
    case (Cons c sp')
    with sp show ?thesis by auto
  qed
  with mk obtain r2 where 2: "matches U marker (mk @ sp @ ds @ fr) = (sp @ ds @ fr, None) # r2"
    using first_marker by blast
  from first_Cat [OF 2 1] obtain r3 where 3: "matches U marker_number (mk @ sp @ ds @ fr)
      = (r, Some (take (length (ds @ fr) - length r) (ds @ fr))) # r3"
    unfolding marker_number_def by auto
  from mk obtain c cs where "mk @ sp @ ds @ fr = c # cs" by (auto simp: py_def)
  with 3 show ?thesis by (metis list.simps(5) search.simps(2) snd_conv)
qed

lemma is_decimal_ascii_tables: "is_decimal ascii_tables = is_digit"
  by (rule ext) (simp add: is_decimal_def ascii_tables_def ascii_todecimal_def is_digit_def)

lemma isspace_ascii_tables: "isspace ascii_tables = ascii_isspace"
  by (simp add: ascii_tables_def)

lemma digits_plain:
  assumes "list_all is_digit ds"
  shows "map ascii_lower ds = ds" "replace_comma ds = ds" "map (to_ascii U) ds = ds"
        "list_all (\<lambda>c. \<not> ascii_isspace c) ds" "is_ascii ds"
  using assms
  by (auto simp: list_all_iff is_digit_def ascii_lower_def replace_comma_def to_ascii_def
                 ascii_isspace_def is_ascii_def intro!: map_idI filter_True)

lemma marker_plain:
  assumes "mk \<in> {py ''rs'', py ''rs.'', py ''inr''}"
  shows "map ascii_lower mk = mk" "is_ascii mk"
  using assms by (auto simp: py_def ascii_lower_def is_ascii_def)

lemma spaces_plain:
  assumes "list_all ascii_isspace sp"
  shows "map ascii_lower sp = sp" "is_ascii sp"
  using assms
  by (auto simp: list_all_iff ascii_isspace_def ascii_lower_def is_ascii_def intro!: map_idI)

lemma float_literal_digits:
  assumes "ds \<noteq> []" "list_all is_digit ds"
  shows "float_literal ds = Inr (real (digits_value ds))"
proof -
  from assms(2) have split: "takeWhile is_digit ds = ds" "dropWhile is_digit ds = []"
    by (simp_all add: list_all_iff)
  from assms(1) show ?thesis by (simp add: float_literal_def split)
qed

lemma fraction_group:
  assumes mk: "mk \<in> {py ''rs'', py ''rs.'', py ''inr''}"
      and sp: "list_all ascii_isspace sp"
      and ds: "ds \<noteq> []" "list_all is_digit ds"
      and d: "is_digit d" "is_digit e"
  shows "search ascii_tables marker_number (str_lower ascii_tables (mk @ sp @ ds @ [46, d]))
         = Some (Match (Some ds))"
    and "search ascii_tables marker_number (str_lower ascii_tables (mk @ sp @ ds @ [46, d, e]))
         = Some (Match (Some (ds @ [46, d, e])))"
proof -
  let ?A = ascii_tables
  have sp': "list_all (isspace ?A) sp" "\<not> isspace ?A 46"
    using sp by (simp_all add: isspace_ascii_tables) (simp add: ascii_isspace_def)
  have ds': "list_all (is_decimal ?A) ds" "list_all (\<lambda>c. \<not> isspace ?A c) ds" "\<not> is_decimal ?A 46"
    using ds digits_plain(4) [OF ds(2)]
    by (simp_all add: is_decimal_ascii_tables isspace_ascii_tables) (simp add: is_digit_def)
  from d have d': "is_decimal ?A d" "is_decimal ?A e" by (simp_all add: is_decimal_ascii_tables)
  have lower: "str_lower ?A (mk @ sp @ ds @ fr) = mk @ sp @ ds @ fr"
    if "map ascii_lower fr = fr" for fr
    using that by (simp add: ascii_tables_def marker_plain [OF mk] spaces_plain [OF sp]
                             digits_plain [OF ds(2)])

  from first_number_one_digit [OF ds(1) ds'(1,3), of d] obtain rest
    where "matches ?A number (ds @ [46, d]) = ([46, d], None) # rest" by blast
  from first_marker_number [OF mk sp' ds(1) ds' this]
  have "search ?A marker_number (mk @ sp @ ds @ [46, d]) = Some (Match (Some ds))" by simp
  moreover have "str_lower ?A (mk @ sp @ ds @ [46, d]) = mk @ sp @ ds @ [46, d]"
    using d by (intro lower) (simp add: ascii_lower_def is_digit_def)
  ultimately show "search ?A marker_number (str_lower ?A (mk @ sp @ ds @ [46, d]))
                   = Some (Match (Some ds))"
    by simp

  from first_number_two_digits [OF ds(1) ds'(1,3) d'] obtain rest
    where "matches ?A number (ds @ [46, d, e]) = ([], None) # rest" by blast
  from first_marker_number [OF mk sp' ds(1) ds' this]
  have "search ?A marker_number (mk @ sp @ ds @ [46, d, e])
        = Some (Match (Some (ds @ [46, d, e])))" by simp
  moreover have "str_lower ?A (mk @ sp @ ds @ [46, d, e]) = mk @ sp @ ds @ [46, d, e]"
    using d by (intro lower) (simp add: ascii_lower_def is_digit_def)
  ultimately show "search ?A marker_number (str_lower ?A (mk @ sp @ ds @ [46, d, e]))
                   = Some (Match (Some (ds @ [46, d, e])))"
    by simp
qed

section \<open>The loop over the merchants\<close>

lemma merchant_loop_first:
  "i < length ms \<Longrightarrow> contains (ms ! i) (str_lower U text) \<Longrightarrow>
   \<forall>j<i. \<not> contains (ms ! j) (str_lower U text) \<Longrightarrow>
   merchant_loop U ms text = title (ms ! i)"
proof (induction ms arbitrary: i)
  case Nil
  then show ?case by simp
next
  case (Cons m ms)
  show ?case
  proof (cases i)
    case 0
    with Cons.prems show ?thesis by simp
  next
    case (Suc k)
    from Cons.prems Suc have "\<not> contains m (str_lower U text)" by auto
    moreover from Cons.prems Suc have "merchant_loop U ms text = title (ms ! k)"
      by (intro Cons.IH) auto
    ultimately show ?thesis using Suc by simp
  qed
qed

lemma merchant_loop_none:
  "\<forall>m\<in>set ms. \<not> contains m (str_lower U text) \<Longrightarrow>
   merchant_loop U ms text = py ''Unknown Merchant''"
  by (induction ms) auto

lemma merchant_loop_lower:
  "str_lower U text = str_lower U text' \<Longrightarrow> merchant_loop U ms text = merchant_loop U ms text'"
  by (induction ms) auto

section \<open>The Normalizer\<close>

text \<open>
  C3, as the claim states it, fails: the underscore is a word character for \<^verbatim>\<open>\w\<close>, so
  \<^verbatim>\<open>preprocess_text("a_b")\<close> is \<^verbatim>\<open>"a_b"\<close>, whose second character is neither
  alphanumeric nor a space.
\<close>

theorem underscore_counterexample:
  "preprocess_text ascii_tables (py ''a_b'') = [97, 95, 98]
   \<and> \<not> isalnum ascii_tables 95 \<and> (95 :: cp) \<noteq> 32"
  by code_simp

text \<open>
  C3, amended. For every input string, each character of the output of the Normalizer
  is a single space (U+0020) or a word character (alphanumeric or underscore) of the
  lower-cased input that is no white space; the output has no two spaces in a row and
  no space at its start or end. For an ASCII input the characters of the output are
  lower-case letters, digits, underscores and spaces.
\<close>

theorem normalizer_output:
  assumes "isspace U 32"
  shows "(\<forall>c\<in>set (preprocess_text U text).
            c = 32 \<or> (is_word U c \<and> \<not> isspace U c \<and> c \<in> set (str_lower U text)))
         \<and> \<not> contains [32, 32] (preprocess_text U text)
         \<and> (preprocess_text U text \<noteq> [] \<longrightarrow>
              hd (preprocess_text U text) \<noteq> 32 \<and> last (preprocess_text U text) \<noteq> 32)
         \<and> (ascii_exact U \<and> is_ascii text \<longrightarrow>
              (\<forall>c\<in>set (preprocess_text U text).
                 c = 32 \<or> c = 95 \<or> (48 \<le> c \<and> c \<le> 57) \<or> (97 \<le> c \<and> c \<le> 122)))"
proof -
  define ws where "ws = split_ws U (sub_nonword U (str_lower U text))"
  have out: "preprocess_text U text = join [32] ws"
    by (simp add: preprocess_text_def ws_def)
  have words: "w \<noteq> [] \<and> (\<forall>c\<in>set w. \<not> isspace U c \<and> is_word U c \<and> c \<in> set (str_lower U text))"
    if "w \<in> set ws" for w
    using that assms unfolding ws_def by (rule preprocess_text_words [rotated])
  have no32: "\<forall>w\<in>set ws. w \<noteq> [] \<and> 32 \<notin> set w"
    using words assms by blast
  have chars: "\<forall>c\<in>set (join [32] ws).
            c = 32 \<or> (is_word U c \<and> \<not> isspace U c \<and> c \<in> set (str_lower U text))"
    using set_join [of "[32]" ws] words by fastforce
  have single: "\<not> contains [32, 32] (join [32] ws)"
    using no32 by (rule join_single_spaces)
  have ends: "hd (join [32] ws) \<noteq> 32 \<and> last (join [32] ws) \<noteq> 32" if "join [32] ws \<noteq> []"
  proof -
    from that have ne: "ws \<noteq> []" by auto
    with no32 have "hd (join [32] ws) = hd (hd ws)" "last (join [32] ws) = last (last ws)"
      by (simp_all add: hd_join last_join)
    moreover from ne no32 have "hd ws \<noteq> [] \<and> 32 \<notin> set (hd ws)" "last ws \<noteq> [] \<and> 32 \<notin> set (last ws)"
      by simp_all
    ultimately show ?thesis by (metis hd_in_set last_in_set)
  qed
  have ascii: "\<forall>c\<in>set (join [32] ws).
                 c = 32 \<or> c = 95 \<or> (48 \<le> c \<and> c \<le> 57) \<or> (97 \<le> c \<and> c \<le> 122)"
    if exact: "ascii_exact U" and input: "is_ascii text"
  proof
    fix c
    assume "c \<in> set (join [32] ws)"
    with chars consider "c = 32" | "is_word U c" "c \<in> set (str_lower U text)" by blast
    then show "c = 32 \<or> c = 95 \<or> (48 \<le> c \<and> c \<le> 57) \<or> (97 \<le> c \<and> c \<le> 122)"
    proof cases
      case 1
      then show ?thesis by simp
    next
      case 2
      from exact input have "str_lower U text = map ascii_lower text"
        by (simp add: ascii_exact_def)
      with 2(2) obtain d where d: "d \<in> set text" "c = ascii_lower d" by auto
      with input have "d < 128" by (auto simp: is_ascii_def list_all_iff)
      with d(2) have c: "c < 128" "\<not> (65 \<le> c \<and> c \<le> 90)"
        by (auto simp: ascii_lower_def split: if_splits)
      with 2(1) exact have "ascii_isalnum c \<or> c = 95"
        by (auto simp: is_word_def ascii_exact_def)
      with c(2) show ?thesis by (auto simp: ascii_isalnum_def)
    qed
  qed
  from chars single ends ascii show ?thesis unfolding out by blast
qed

theorem normalizer_output_witness:
  "preprocess_text ascii_tables (py ''  Rs.200, spent_on  SWIGGY!! '') = py ''rs 200 spent_on swiggy''
   \<and> \<not> contains [32, 32] (preprocess_text ascii_tables (py ''  Rs.200, spent_on  SWIGGY!! ''))
   \<and> hd (preprocess_text ascii_tables (py ''  Rs.200, spent_on  SWIGGY!! '')) \<noteq> 32
   \<and> last (preprocess_text ascii_tables (py ''  Rs.200, spent_on  SWIGGY!! '')) \<noteq> 32"
proof -
  have space: "isspace ascii_tables 32" by code_simp
  have out: "preprocess_text ascii_tables (py ''  Rs.200, spent_on  SWIGGY!! '')
             = py ''rs 200 spent_on swiggy''" by code_simp
  then have "preprocess_text ascii_tables (py ''  Rs.200, spent_on  SWIGGY!! '') \<noteq> []"
    by (simp add: py_def)
  with normalizer_output [OF space, of "py ''  Rs.200, spent_on  SWIGGY!! ''"] out
  show ?thesis by blast
qed

text \<open>
  C8. The Normalizer is idempotent: for every string \<open>x\<close>, normalizing the normalized
  \<open>x\<close> gives the normalized \<open>x\<close>, with tables in which U+0020 is white space and
  \<^verbatim>\<open>str.lower\<close> leaves lower-cased text as it is.
\<close>

theorem normalizer_idempotent:
  assumes "isspace U 32" "lower_stable U"
  shows "preprocess_text U (preprocess_text U x) = preprocess_text U x"
proof -
  define ws where "ws = split_ws U (sub_nonword U (str_lower U x))"
  have out: "preprocess_text U x = join [32] ws"
    by (simp add: preprocess_text_def ws_def)
  have words: "w \<noteq> [] \<and> (\<forall>c\<in>set w. \<not> isspace U c \<and> is_word U c \<and> c \<in> set (str_lower U x))"
    if "w \<in> set ws" for w
    using that assms(1) unfolding ws_def by (rule preprocess_text_words [rotated])
  have chars: "c = 32 \<or> (is_word U c \<and> c \<in> set (str_lower U x))" if "c \<in> set (join [32] ws)" for c
    using set_join [of "[32]" ws] words that by fastforce
  then have "set (join [32] ws) \<subseteq> insert 32 (set (str_lower U x))" by blast
  with assms(2) have lower: "str_lower U (join [32] ws) = join [32] ws"
    unfolding lower_stable_def by blast
  have sub: "sub_nonword U (join [32] ws) = join [32] ws"
    unfolding sub_nonword_def using chars assms(1) by (intro map_idI) auto
  have split: "split_ws U (join [32] ws) = ws"
    using assms(1) words by (intro split_ws_join) blast+
  show ?thesis
    unfolding out by (simp add: preprocess_text_def lower sub split)
qed

theorem normalizer_idempotent_witness:
  "preprocess_text ascii_tables
     (preprocess_text ascii_tables (py ''  Rs.200, spent_on  SWIGGY!! ''))
   = py ''rs 200 spent_on swiggy''"
proof -
  have space: "isspace ascii_tables 32" by code_simp
  have out: "preprocess_text ascii_tables (py ''  Rs.200, spent_on  SWIGGY!! '')
             = py ''rs 200 spent_on swiggy''" by code_simp
  from normalizer_idempotent [OF space lower_stable_ascii_tables,
                              of "py ''  Rs.200, spent_on  SWIGGY!! ''"]
  show ?thesis by (simp only: out)
qed

section \<open>The AmountExtractor\<close>

text \<open>
  C1. The patterns are tried in the order of the list (currency marker then number,
  number then currency marker, then the keywords "amount", "debited", "spent"), and the
  first pattern that matches the lower-cased text decides: the amount of its match is
  returned. So when the pattern "marker then number" matches, its value is returned
  whatever the keyword patterns match; when it does not and "number then marker"
  matches, the value of that one is returned.
\<close>

theorem amount_priority:
  "patterns = [marker_number, number_marker,
               keyword ''amount'', keyword ''debited'', keyword ''spent'']
   \<and> (\<forall>i<length patterns.
        (\<forall>j<i. search U (patterns ! j) (str_lower U text) = None) \<longrightarrow>
        search U (patterns ! i) (str_lower U text) = Some m \<longrightarrow>
        extract_amount_from_sms U text = amount_of U m)
   \<and> (search U marker_number (str_lower U text) = Some m \<longrightarrow>
        extract_amount_from_sms U text = amount_of U m)
   \<and> (search U marker_number (str_lower U text) = None \<longrightarrow>
        search U number_marker (str_lower U text) = Some m \<longrightarrow>
        extract_amount_from_sms U text = amount_of U m)"
proof -
  have first: "\<forall>i<length patterns.
        (\<forall>j<i. search U (patterns ! j) (str_lower U text) = None) \<longrightarrow>
        search U (patterns ! i) (str_lower U text) = Some m \<longrightarrow>
        extract_amount_from_sms U text = amount_of U m"
    unfolding extract_amount_from_sms_def by (blast intro: amount_loop_first)
  have "search U marker_number (str_lower U text) = Some m \<longrightarrow>
        extract_amount_from_sms U text = amount_of U m"
    by (simp add: extract_amount_from_sms_def patterns_def)
  moreover have "search U marker_number (str_lower U text) = None \<longrightarrow>
        search U number_marker (str_lower U text) = Some m \<longrightarrow>
        extract_amount_from_sms U text = amount_of U m"
    by (simp add: extract_amount_from_sms_def patterns_def)
  ultimately show ?thesis using first by (simp add: patterns_def)
qed

theorem amount_priority_witness:
  "search ascii_tables marker_number (str_lower ascii_tables (py ''Spent 300 Rs 200''))
     = Some (Match (Some (py ''200'')))
   \<and> search ascii_tables (keyword ''spent'') (str_lower ascii_tables (py ''Spent 300 Rs 200''))
     = Some (Match (Some (py ''300'')))
   \<and> extract_amount_from_sms ascii_tables (py ''Spent 300 Rs 200'') = Inr 200"
proof -
  have a: "search ascii_tables marker_number (str_lower ascii_tables (py ''Spent 300 Rs 200''))
     = Some (Match (Some (py ''200'')))" by code_simp
  have b: "search ascii_tables (keyword ''spent'') (str_lower ascii_tables (py ''Spent 300 Rs 200''))
     = Some (Match (Some (py ''300'')))" by code_simp
  have c: "amount_of ascii_tables (Match (Some (py ''200''))) = Inr 200" by code_simp
  from amount_priority [of ascii_tables "py ''Spent 300 Rs 200''" "Match (Some (py ''200''))"] a
  have "extract_amount_from_sms ascii_tables (py ''Spent 300 Rs 200'')
        = amount_of ascii_tables (Match (Some (py ''200'')))" by blast
  with a b c show ?thesis by simp
qed

text \<open>
  C2, as the claim states it, fails: the fraction of a pattern is \<^verbatim>\<open>(?:\.\d{2})?\<close>,
  which takes a point and two digits or nothing, so for \<^verbatim>\<open>"rs 10.5"\<close> the group is
  \<^verbatim>\<open>"10"\<close> and the amount is 10.0, not 10.5.
\<close>

theorem one_digit_fraction_counterexample:
  "extract_amount_from_sms ascii_tables (py ''rs 10.5'') = Inr 10
   \<and> extract_amount_from_sms ascii_tables (py ''rs 10.5'') \<noteq> Inr 10.5"
  by code_simp

text \<open>
  C2, amended. Each pattern captures a numeric literal whose fraction is a point and two
  digits, or nothing: for every input that consists of one of the currency abbreviations
  "rs", "rs." and "inr", any ASCII white space, ASCII digits, a point and one more digit
  (as in \<^verbatim>\<open>"rs 10.5"\<close>), the first pattern matches, the captured literal is the digits
  before the point and the amount is the \<^verbatim>\<open>float\<close> of these digits, which is their
  integer value when that is at most \<open>2 ^ 53\<close>; when two digits follow the point
  (\<^verbatim>\<open>"rs 10.50"\<close>), the captured literal is the digits, the point and the two digits, and
  the amount is the \<^verbatim>\<open>float\<close> of this literal.
\<close>

theorem fraction_needs_two_digits:
  assumes "ascii_exact U"
      and "mk \<in> {py ''rs'', py ''rs.'', py ''inr''}"
      and "list_all ascii_isspace sp"
      and "ds \<noteq> []" "list_all is_digit ds" "is_digit d" "is_digit e"
  shows "search U marker_number (str_lower U (mk @ sp @ ds @ [46, d])) = Some (Match (Some ds))
         \<and> extract_amount_from_sms U (mk @ sp @ ds @ [46, d]) = py_float U ds
         \<and> (digits_value ds \<le> 2 ^ 53 \<longrightarrow>
              extract_amount_from_sms U (mk @ sp @ ds @ [46, d]) = Inr (real (digits_value ds)))
         \<and> search U marker_number (str_lower U (mk @ sp @ ds @ [46, d, e]))
           = Some (Match (Some (ds @ [46, d, e])))
         \<and> extract_amount_from_sms U (mk @ sp @ ds @ [46, d, e]) = py_float U (ds @ [46, d, e])"
proof -
  let ?A = ascii_tables
  have first: "extract_amount_from_sms U t = amount_of U m"
    if "search U marker_number (str_lower U t) = Some m" for t m
    using that by (simp add: extract_amount_from_sms_def patterns_def)
  have search: "search U marker_number (str_lower U t)
                = search ?A marker_number (str_lower ?A t)" if "is_ascii t" for t
    using that assms(1) by (simp add: str_lower_ascii search_ascii is_ascii_lower)
  from assms have plain: "is_ascii (mk @ sp @ ds @ [46, d])" "is_ascii (mk @ sp @ ds @ [46, d, e])"
    using marker_plain(2) [of mk] spaces_plain(2) [of sp] digits_plain(5) [of ds]
    by (simp_all add: is_ascii_def is_digit_def)
  note group = fraction_group [OF assms(2-7)]

  from group(1) plain(1)
  have one: "search U marker_number (str_lower U (mk @ sp @ ds @ [46, d]))
             = Some (Match (Some ds))"
    by (simp add: search)
  then have "extract_amount_from_sms U (mk @ sp @ ds @ [46, d]) = amount_of U (Match (Some ds))"
    by (rule first)
  then have amount_one: "extract_amount_from_sms U (mk @ sp @ ds @ [46, d]) = py_float U ds"
    by (simp add: amount_of_def digits_plain(2) [OF assms(5)])
  have "py_float U ds = Inr (real (digits_value ds))"
    by (simp add: py_float_def digits_plain(3) [OF assms(5)] float_literal_digits [OF assms(4,5)])
  with amount_one
  have value_one: "extract_amount_from_sms U (mk @ sp @ ds @ [46, d]) = Inr (real (digits_value ds))"
    by simp

  from group(2) plain(2)
  have two: "search U marker_number (str_lower U (mk @ sp @ ds @ [46, d, e]))
             = Some (Match (Some (ds @ [46, d, e])))"
    by (simp add: search)
  then have "extract_amount_from_sms U (mk @ sp @ ds @ [46, d, e])
             = amount_of U (Match (Some (ds @ [46, d, e])))"
    by (rule first)
  moreover have "replace_comma (ds @ [46, d, e]) = ds @ [46, d, e]"
    using assms(6,7) digits_plain(2) [OF assms(5)]
    by (simp add: replace_comma_def is_digit_def)
  ultimately
  have amount_two: "extract_amount_from_sms U (mk @ sp @ ds @ [46, d, e])
                    = py_float U (ds @ [46, d, e])"
    by (simp add: amount_of_def)
  from one amount_one value_one two amount_two show ?thesis by simp
qed

theorem fraction_needs_two_digits_witness:
  "search ascii_tables marker_number (str_lower ascii_tables (py ''inr  10.5''))
     = Some (Match (Some (py ''10'')))
   \<and> extract_amount_from_sms ascii_tables (py ''inr  10.5'') = Inr 10
   \<and> search ascii_tables marker_number (str_lower ascii_tables (py ''inr  10.50''))
     = Some (Match (Some (py ''10.50'')))
   \<and> extract_amount_from_sms ascii_tables (py ''inr  10.50'') = Inr (21 / 2)"
proof -
  have mk: "py ''inr'' \<in> {py ''rs'', py ''rs.'', py ''inr''}" by simp
  have input: "list_all ascii_isspace (py ''  '')" "py ''10'' \<noteq> []"
    "list_all is_digit (py ''10'')" "is_digit 53" "is_digit 48"
    by code_simp+
  have one: "py ''inr'' @ py ''  '' @ py ''10'' @ [46, 53] = py ''inr  10.5''"
    and two: "py ''inr'' @ py ''  '' @ py ''10'' @ [46, 53, 48] = py ''inr  10.50''"
    and literal: "py ''10'' @ [46, 53, 48] = py ''10.50''"
    by (simp_all add: py_def)
  note spec = fraction_needs_two_digits [OF ascii_exact_ascii_tables mk input,
                                         unfolded one two, unfolded literal]
  have ten: "digits_value (py ''10'') = 10"
    by (simp add: digits_value_def py_def)
  have float: "py_float ascii_tables (py ''10.50'') = Inr (21 / 2)"
    by (simp add: py_float_def to_ascii_def float_literal_def is_digit_def digits_value_def py_def)
  note group_one = spec [THEN conjunct1]
  note value_one = spec [THEN conjunct2, THEN conjunct2, THEN conjunct1]
  note group_two = spec [THEN conjunct2, THEN conjunct2, THEN conjunct2, THEN conjunct1]
  note amount_two = spec [THEN conjunct2, THEN conjunct2, THEN conjunct2, THEN conjunct2]
  from value_one have "extract_amount_from_sms ascii_tables (py ''inr  10.5'') = Inr 10"
    by (simp add: ten)
  moreover from amount_two
  have "extract_amount_from_sms ascii_tables (py ''inr  10.50'') = Inr (21 / 2)"
    by (simp add: float)
  ultimately show ?thesis
    using group_one group_two by (intro conjI)
qed

text \<open>
  C6. \<^verbatim>\<open>extract_amount_from_sms\<close> raises on no string: it returns an amount for every
  text, which is 0.0 when no pattern matches; whenever one of the five patterns matches,
  group 1 took part in the match and \<^verbatim>\<open>float\<close> accepts its text with the commas
  removed. (\<^verbatim>\<open>preprocess_text\<close> and \<^verbatim>\<open>extract_merchant_from_sms\<close> call nothing that
  can raise on a string, and are total functions into strings here.)
\<close>

theorem extractors_total:
  assumes "decimal_sane U"
  shows "(\<exists>v. extract_amount_from_sms U text = Inr v)
         \<and> ((\<forall>p\<in>set patterns. search U p (str_lower U text) = None) \<longrightarrow>
              extract_amount_from_sms U text = Inr 0)
         \<and> (\<forall>p\<in>set patterns. \<forall>m. search U p (str_lower U text) = Some m \<longrightarrow>
              (\<exists>g v. group1 m = Some g \<and> py_float U (replace_comma g) = Inr v))"
proof -
  note cases = amount_loop_cases [of U patterns "text"]
  have "\<exists>v. amount_loop U patterns text = Inr v"
  proof (rule disjE [OF cases])
    assume "\<exists>p\<in>set patterns. \<exists>m. search U p (str_lower U text) = Some m
              \<and> amount_loop U patterns text = amount_of U m"
    then obtain p m where "p \<in> set patterns" "search U p (str_lower U text) = Some m"
      "amount_loop U patterns text = amount_of U m" by blast
    with amount_of_ok [OF assms, of p "str_lower U text" m] show ?thesis by auto
  qed simp
  moreover have "(\<forall>p\<in>set patterns. search U p (str_lower U text) = None) \<longrightarrow>
              amount_loop U patterns text = Inr 0"
    using cases by fastforce
  moreover have "\<forall>p\<in>set patterns. \<forall>m. search U p (str_lower U text) = Some m \<longrightarrow>
              (\<exists>g v. group1 m = Some g \<and> py_float U (replace_comma g) = Inr v)"
    using amount_of_ok [OF assms] by blast
  ultimately show ?thesis by (simp add: extract_amount_from_sms_def)
qed

theorem extractors_total_witness:
  "extract_amount_from_sms ascii_tables (py ''hello world'') = Inr 0
   \<and> search ascii_tables (keyword ''debited'')
         (str_lower ascii_tables (py ''Debited INR 1,500.50 for groceries''))
       = Some (Match (Some (py ''1,500.50'')))
   \<and> py_float ascii_tables (replace_comma (py ''1,500.50'')) = Inr 1500.5"
proof -
  have none: "\<forall>p\<in>set patterns.
                search ascii_tables p (str_lower ascii_tables (py ''hello world'')) = None"
    by code_simp
  have found: "search ascii_tables (keyword ''debited'')
                 (str_lower ascii_tables (py ''Debited INR 1,500.50 for groceries''))
               = Some (Match (Some (py ''1,500.50'')))"
    by code_simp
  have "keyword ''debited'' \<in> set patterns" by (simp add: patterns_def)
  with extractors_total [OF decimal_sane_ascii_tables,
                         of "py ''Debited INR 1,500.50 for groceries''"] found
  obtain g v where "group1 (Match (Some (py ''1,500.50''))) = Some g"
      "py_float ascii_tables (replace_comma g) = Inr v"
    by blast
  moreover have "py_float ascii_tables (replace_comma (py ''1,500.50'')) = Inr 1500.5"
    by (simp add: py_float_def replace_comma_def to_ascii_def float_literal_def is_digit_def
                  digits_value_def py_def)
  moreover from extractors_total [OF decimal_sane_ascii_tables, of "py ''hello world''"] none
  have "extract_amount_from_sms ascii_tables (py ''hello world'') = Inr 0" by blast
  ultimately show ?thesis using found by simp
qed

text \<open>
  C10. The patterns are searched anywhere in the text and a currency abbreviation needs
  no word boundary: in \<^verbatim>\<open>"offers 100 today"\<close> the \<^verbatim>\<open>rs\<close> that ends the word
  \<^verbatim>\<open>offers\<close> is taken for the marker, and the amount is 100.0, not 0.0.
\<close>

theorem rs_inside_a_word_is_a_marker:
  assumes "ascii_exact U"
  shows "extract_amount_from_sms U (py ''offers 100 today'') = Inr 100"
proof -
  have "is_ascii (py ''offers 100 today'')" by code_simp
  with assms have "extract_amount_from_sms U (py ''offers 100 today'')
                   = extract_amount_from_sms ascii_tables (py ''offers 100 today'')"
    by (rule extract_amount_ascii)
  also have "\<dots> = Inr 100" by code_simp
  finally show ?thesis .
qed

theorem rs_inside_a_word_is_a_marker_witness:
  "extract_amount_from_sms ascii_tables (py ''offers 100 today'') = Inr 100"
  using rs_inside_a_word_is_a_marker [OF ascii_exact_ascii_tables] .

section \<open>The MerchantExtractor\<close>

text \<open>
  C5. \<^verbatim>\<open>extract_merchant_from_sms\<close> lower-cases the text and goes through the
  vocabulary in its order: the result is the title-cased form of the first entry that
  the lower-cased text contains (\<open>contains\<close> is containment as a substring, lemma
  \<open>contains_iff\<close>), and "Unknown Merchant" when it contains none. Two texts with the same
  lower case give the same merchant: \<^verbatim>\<open>"SWIGGY order"\<close> and \<^verbatim>\<open>"swiggy order"\<close> both give
  "Swiggy". The title-cased forms are listed, "Big Bazaar" among them.
\<close>

theorem extract_merchant_first_contained:
  "(\<forall>i<length merchants.
       contains (merchants ! i) (str_lower U text) \<longrightarrow>
       (\<forall>j<i. \<not> contains (merchants ! j) (str_lower U text)) \<longrightarrow>
       extract_merchant_from_sms U text = title (merchants ! i))
   \<and> ((\<forall>m\<in>set merchants. \<not> contains m (str_lower U text)) \<longrightarrow>
        extract_merchant_from_sms U text = py ''Unknown Merchant'')
   \<and> (str_lower U text = str_lower U text' \<longrightarrow>
        extract_merchant_from_sms U text = extract_merchant_from_sms U text')
   \<and> (ascii_exact U \<longrightarrow>
        extract_merchant_from_sms U (py ''SWIGGY order'') = py ''Swiggy''
        \<and> extract_merchant_from_sms U (py ''swiggy order'') = py ''Swiggy'')
   \<and> map title merchants
       = map py [''Swiggy'', ''Zomato'', ''Amazon'', ''Flipkart'', ''Netflix'', ''Uber'', ''Ola'',
                 ''Pizza Hut'', ''Dominos'', ''Mcdonald'', ''Starbucks'', ''Big Bazaar'', ''Dmart'']"
proof -
  have first: "\<forall>i<length merchants.
       contains (merchants ! i) (str_lower U text) \<longrightarrow>
       (\<forall>j<i. \<not> contains (merchants ! j) (str_lower U text)) \<longrightarrow>
       extract_merchant_from_sms U text = title (merchants ! i)"
    unfolding extract_merchant_from_sms_def by (blast intro: merchant_loop_first)
  have none: "(\<forall>m\<in>set merchants. \<not> contains m (str_lower U text)) \<longrightarrow>
        extract_merchant_from_sms U text = py ''Unknown Merchant''"
    unfolding extract_merchant_from_sms_def by (blast intro: merchant_loop_none)
  have lower: "str_lower U text = str_lower U text' \<longrightarrow>
        extract_merchant_from_sms U text = extract_merchant_from_sms U text'"
    unfolding extract_merchant_from_sms_def by (blast intro: merchant_loop_lower)
  have swiggy: "extract_merchant_from_sms U (py ''SWIGGY order'') = py ''Swiggy''
        \<and> extract_merchant_from_sms U (py ''swiggy order'') = py ''Swiggy''" if "ascii_exact U"
  proof -
    have "is_ascii (py ''SWIGGY order'')" "is_ascii (py ''swiggy order'')" by code_simp+
    then have "extract_merchant_from_sms U (py ''SWIGGY order'')
               = extract_merchant_from_sms ascii_tables (py ''SWIGGY order'')"
      "extract_merchant_from_sms U (py ''swiggy order'')
               = extract_merchant_from_sms ascii_tables (py ''swiggy order'')"
      using that by (simp_all add: extract_merchant_ascii)
    moreover have "extract_merchant_from_sms ascii_tables (py ''SWIGGY order'') = py ''Swiggy''"
      "extract_merchant_from_sms ascii_tables (py ''swiggy order'') = py ''Swiggy''"
      by code_simp+
    ultimately show ?thesis by simp
  qed
  have titles: "map title merchants
       = map py [''Swiggy'', ''Zomato'', ''Amazon'', ''Flipkart'', ''Netflix'', ''Uber'', ''Ola'',
                 ''Pizza Hut'', ''Dominos'', ''Mcdonald'', ''Starbucks'', ''Big Bazaar'', ''Dmart'']"
    by code_simp
  from first none lower swiggy titles show ?thesis by blast
qed

theorem extract_merchant_first_contained_witness:
  "contains (py ''big bazaar'') (str_lower ascii_tables (py ''Paid at BIG BAZAAR with Amazon Pay''))
   \<and> extract_merchant_from_sms ascii_tables (py ''Paid at BIG BAZAAR with Amazon Pay'') = py ''Amazon''
   \<and> extract_merchant_from_sms ascii_tables (py ''Rs 50 paid for bus fare'') = py ''Unknown Merchant''
   \<and> extract_merchant_from_sms ascii_tables (py ''SWIGGY order'') = py ''Swiggy''"
proof -
  let ?t = "str_lower ascii_tables (py ''Paid at BIG BAZAAR with Amazon Pay'')"
  note spec = extract_merchant_first_contained [of ascii_tables]
  have big: "contains (py ''big bazaar'') ?t" by code_simp
  have "\<not> contains (merchants ! 0) ?t" "\<not> contains (merchants ! 1) ?t" by code_simp+
  then have earlier: "\<forall>j<2. \<not> contains (merchants ! j) ?t"
    by (simp add: less_2_cases_iff)
  have amazon: "contains (merchants ! 2) ?t" "title (merchants ! 2) = py ''Amazon''"
    "2 < length merchants" by code_simp+
  with spec [of "py ''Paid at BIG BAZAAR with Amazon Pay''"] earlier
  have 1: "extract_merchant_from_sms ascii_tables (py ''Paid at BIG BAZAAR with Amazon Pay'')
           = py ''Amazon''" by metis
  have "\<forall>m\<in>set merchants. \<not> contains m (str_lower ascii_tables (py ''Rs 50 paid for bus fare''))"
    by code_simp
  with spec [of "py ''Rs 50 paid for bus fare''"]
  have 2: "extract_merchant_from_sms ascii_tables (py ''Rs 50 paid for bus fare'')
           = py ''Unknown Merchant''" by blast
  from spec [of "py ''SWIGGY order''"] ascii_exact_ascii_tables
  have 3: "extract_merchant_from_sms ascii_tables (py ''SWIGGY order'') = py ''Swiggy''" by blast
  from big 1 2 3 show ?thesis by blast
qed

section \<open>The endpoint and the classifier\<close>

lemma process_clock:
  "map_sum id extraction_result.truncate (returned (process m t r now1 U sms c))
     = map_sum id extraction_result.truncate (returned (process m t r now2 U sms c))
   \<and> printed (process m t r now1 U sms c) = printed (process m t r now2 U sms c)
   \<and> objects (process m t r now1 U sms c) = objects (process m t r now2 U sms c)"
  by (simp add: process_def and_then_def quiet_def call_def py_print_def Let_def
                extraction_result.truncate_def
           split: sum.splits)

lemma process_frame:
  assumes "leaves_unchanged t" "leaves_unchanged (predict m)" "leaves_unchanged (predict_proba m)"
  shows "objects (process m t r now U sms c) = c"
  using assms
  by (simp add: process_def and_then_def quiet_def call_def py_print_def Let_def
                leaves_unchanged_def
           split: sum.splits)

lemma and_then_quiet_Inl:
  "and_then (quiet (Inl e)) f c = \<lparr> returned = Inl e, printed = [], objects = c \<rparr>"
  by (simp add: and_then_def quiet_def)

lemma and_then_quiet_Inr:
  "and_then (quiet (Inr v)) f c = f v c"
  by (simp add: and_then_def quiet_def Let_def)

lemma and_then_answer:
  "and_then x (\<lambda>v. quiet (Inr (h v))) c
   = \<lparr> returned = map_sum id h (returned (x c)), printed = printed (x c),
       objects = objects (x c) \<rparr>"
  by (simp add: and_then_def quiet_def Let_def split: sum.splits)

lemma attempt_unloaded:
  assumes "model G = None \<or> vectorizer G = None"
  shows "attempt G r now U g c = \<lparr> returned = Inr model_not_loaded, printed = [], objects = c \<rparr>"
  using assms by (simp add: attempt_def quiet_def)

lemma attempt_cases:
  assumes "model G = Some m" "vectorizer G = Some t"
  obtains e where "\<forall>now. attempt G r now U g c
                     = \<lparr> returned = Inl e, printed = [], objects = c \<rparr>"
  | "\<forall>now. attempt G r now U g c
             = \<lparr> returned = Inr missing_sms_text, printed = [], objects = c \<rparr>"
  | sms where "\<forall>now. attempt G r now U g c
                 = \<lparr> returned = map_sum id (\<lambda>result. (Result result, 200))
                                 (returned (process m t r now U sms c)),
                     printed = printed (process m t r now U sms c),
                     objects = objects (process m t r now U sms c) \<rparr>"
proof (cases g)
  case (Inl e)
  with assms have "\<forall>now. attempt G r now U g c
                     = \<lparr> returned = Inl e, printed = [], objects = c \<rparr>"
    by (simp add: attempt_def and_then_quiet_Inl)
  then show ?thesis by (rule that(1))
next
  case data: (Inr data)
  show ?thesis
  proof (cases "if falsy data then Inr False else has_key (py ''sms_text'') data")
    case (Inl e)
    with assms data have "\<forall>now. attempt G r now U g c
                       = \<lparr> returned = Inl e, printed = [], objects = c \<rparr>"
      by (simp add: attempt_def and_then_quiet_Inl and_then_quiet_Inr)
    then show ?thesis by (rule that(1))
  next
    case found: (Inr found)
    show ?thesis
    proof (cases found)
      case False
      with assms data found have "\<forall>now. attempt G r now U g c
             = \<lparr> returned = Inr missing_sms_text, printed = [], objects = c \<rparr>"
        by (simp add: attempt_def and_then_quiet_Inr quiet_def)
      then show ?thesis by (rule that(2))
    next
      case True
      show ?thesis
      proof (cases "item data (py ''sms_text'')")
        case (Inl e)
        with assms data found True have "\<forall>now. attempt G r now U g c
                       = \<lparr> returned = Inl e, printed = [], objects = c \<rparr>"
          by (simp add: attempt_def and_then_quiet_Inl and_then_quiet_Inr)
        then show ?thesis by (rule that(1))
      next
        case (Inr sms)
        with assms data found True have "\<forall>now. attempt G r now U g c
                 = \<lparr> returned = map_sum id (\<lambda>result. (Result result, 200))
                                 (returned (process m t r now U sms c)),
                     printed = printed (process m t r now U sms c),
                     objects = objects (process m t r now U sms c) \<rparr>"
          by (simp add: attempt_def and_then_quiet_Inr and_then_answer)
        then show ?thesis by (rule that(3))
      qed
    qed
  qed
qed

lemma attempt_clock:
  "map_sum id extraction (returned (attempt G r now1 U g c))
     = map_sum id extraction (returned (attempt G r now2 U g c))
   \<and> printed (attempt G r now1 U g c) = printed (attempt G r now2 U g c)
   \<and> objects (attempt G r now1 U g c) = objects (attempt G r now2 U g c)"
proof (cases "model G = None \<or> vectorizer G = None")
  case True
  then show ?thesis by (simp add: attempt_unloaded)
next
  case False
  then obtain m t where G: "model G = Some m" "vectorizer G = Some t" by auto
  from G show ?thesis
  proof (cases rule: attempt_cases [where r = r and U = U and g = g and c = c])
    case (1 e)
    then show ?thesis by simp
  next
    case 2
    then show ?thesis by simp
  next
    case (3 sms)
    note same = process_clock [of m t r now1 U sms c now2]
    have lift: "map_sum id extraction (map_sum id (\<lambda>result. (Result result, 200)) x)
          = map_sum id extraction (map_sum id (\<lambda>result. (Result result, 200)) y)"
      if "map_sum id extraction_result.truncate x = map_sum id extraction_result.truncate y"
      for x y :: "pyexn + result"
      using that by (cases x; cases y) (simp_all add: extraction_def)
    from same
    have "map_sum id extraction (map_sum id (\<lambda>result. (Result result, 200))
                                           (returned (process m t r now1 U sms c)))
          = map_sum id extraction (map_sum id (\<lambda>result. (Result result, 200))
                                             (returned (process m t r now2 U sms c)))"
      by (intro lift) simp
    with 3 same show ?thesis by simp
  qed
qed

lemma attempt_frame:
  assumes "read_only G"
  shows "objects (attempt G r now U g c) = c"
proof (cases "model G = None \<or> vectorizer G = None")
  case True
  then show ?thesis by (simp add: attempt_unloaded)
next
  case False
  then obtain m t where G: "model G = Some m" "vectorizer G = Some t" by auto
  with assms have frame: "objects (process m t r now U sms c) = c" for sms
    by (intro process_frame) (simp_all add: read_only_def)
  from G show ?thesis
    by (cases rule: attempt_cases [where r = r and U = U and g = g and c = c])
       (simp_all add: frame)
qed

lemma categorize_sms_clock:
  "extraction (returned (categorize_sms G r now1 U g c))
     = extraction (returned (categorize_sms G r now2 U g c))
   \<and> printed (categorize_sms G r now1 U g c) = printed (categorize_sms G r now2 U g c)
   \<and> objects (categorize_sms G r now1 U g c) = objects (categorize_sms G r now2 U g c)"
proof -
  note same = attempt_clock [of G r now1 U g c now2]
  show ?thesis
  proof (cases "returned (attempt G r now1 U g c)")
    case (Inl e)
    with same have "returned (attempt G r now2 U g c) = Inl e"
      by (cases "returned (attempt G r now2 U g c)") simp_all
    with Inl same show ?thesis by (simp add: categorize_sms_def Let_def)
  next
    case (Inr a)
    with same obtain b where "returned (attempt G r now2 U g c) = Inr b"
                             "extraction a = extraction b"
      by (cases "returned (attempt G r now2 U g c)") simp_all
    with Inr same show ?thesis by (simp add: categorize_sms_def Let_def)
  qed
qed

lemma categorize_sms_frame:
  assumes "read_only G"
  shows "objects (categorize_sms G r now U g c) = c"
  using attempt_frame [OF assms, of r now U g c]
  by (simp add: categorize_sms_def Let_def split: sum.splits)


lemma example_amount:
  "extract_amount_from_sms ascii_tables (py ''Rs 1500 emergency doctor fees'') = Inr 1500"
proof -
  have "search ascii_tables marker_number
          (str_lower ascii_tables (py ''Rs 1500 emergency doctor fees''))
        = Some (Match (Some (py ''1500'')))"
    by code_simp
  moreover have "amount_of ascii_tables (Match (Some (py ''1500''))) = Inr 1500"
    by (simp add: amount_of_def py_float_def replace_comma_def to_ascii_def float_literal_def
                  is_digit_def digits_value_def py_def)
  ultimately show ?thesis
    by (simp add: extract_amount_from_sms_def patterns_def)
qed

lemma example_merchant:
  "extract_merchant_from_sms ascii_tables (py ''Rs 1500 emergency doctor fees'')
   = py ''Unknown Merchant''"
  by code_simp

lemma example_call:
  assumes "model G = Some m" "vectorizer G = Some transform"
      and "transform [preprocess_text ascii_tables (py ''Rs 1500 emergency doctor fees'')] c
           = (Inr v, c_transform)"
      and "predict m v c_transform = (Inr [label], c_predict)"
      and "predict_proba m v c_predict = (Inr [[1 / 10, 7 / 10, 1 / 5]], c_proba)"
      and "\<not> list_ex surrogate label"
  shows "categorize_sms G (\<lambda>x. x) now ascii_tables
           (Inr (JObj [(py ''sms_text'', JStr (py ''Rs 1500 emergency doctor fees''))])) c
         = \<lparr> returned = (Result \<lparr> category = label, confidence = 7 / 10, amount = 1500,
                                   merchant = py ''Unknown Merchant'',
                                   original_text = py ''Rs 1500 emergency doctor fees'',
                                   processed_at = now \<rparr>, 200),
             printed = [Processing (JStr (py ''Rs 1500 emergency doctor fees'')),
                        Result_line label (7 / 10)],
             objects = c_proba \<rparr>"
proof -
  have shown: "take 50 (py ''Rs 1500 emergency doctor fees'') = py ''Rs 1500 emergency doctor fees''"
    by (simp add: py_def)
  have encoded: "\<not> print_raises ascii_tables (Processing (JStr (py ''Rs 1500 emergency doctor fees'')))"
                "\<not> print_raises ascii_tables (Result_line label (7 / 10))"
    using assms(6) by (simp_all add: ascii_tables_def py_def surrogate_def)
  have result: "process m transform (\<lambda>x. x) now ascii_tables
                  (JStr (py ''Rs 1500 emergency doctor fees'')) c
      = \<lparr> returned = Inr \<lparr> category = label, confidence = 7 / 10, amount = 1500,
              merchant = py ''Unknown Merchant'',
              original_text = py ''Rs 1500 emergency doctor fees'',
              processed_at = now \<rparr>,
          printed = [Processing (JStr (py ''Rs 1500 emergency doctor fees'')),
                     Result_line label (7 / 10)],
          objects = c_proba \<rparr>"
    by (simp add: process_def and_then_def quiet_def call_def py_print_def Let_def
                  example_amount example_merchant shown encoded assms(3-5))
  from assms(1,2) show ?thesis
    by (simp add: categorize_sms_def attempt_def and_then_quiet_Inr and_then_answer result Let_def)
qed

lemma read_only_call:
  "categorize_sms
       \<lparr> model = Some \<lparr> predict = (\<lambda>v :: unit. \<lambda>c :: 'c. (Inr [py ''Emergency''], c)),
                        predict_proba = (\<lambda>v c. (Inr [[1 / 10, 7 / 10, 1 / 5]], c)) \<rparr>,
         vectorizer = Some (\<lambda>texts c. (Inr (), c)) \<rparr>
       (\<lambda>x. x) now ascii_tables
       (Inr (JObj [(py ''sms_text'', JStr (py ''Rs 1500 emergency doctor fees''))])) c
   = \<lparr> returned = (Result \<lparr> category = py ''Emergency'', confidence = 7 / 10, amount = 1500,
                             merchant = py ''Unknown Merchant'',
                             original_text = py ''Rs 1500 emergency doctor fees'',
                             processed_at = now \<rparr>, 200),
       printed = [Processing (JStr (py ''Rs 1500 emergency doctor fees'')),
                  Result_line (py ''Emergency'') (7 / 10)],
       objects = c \<rparr>"
  by (rule example_call
             [where m = "\<lparr> predict = (\<lambda>v c. (Inr [py ''Emergency''], c)),
                            predict_proba = (\<lambda>v c. (Inr [[1 / 10, 7 / 10, 1 / 5]], c)) \<rparr>"
                and transform = "\<lambda>texts c. (Inr (), c)" and v = "()"
                and c_transform = c and c_predict = c])
     (simp_all add: py_def surrogate_def)

text \<open>
  What a call returns depends on the state of the objects: when a method of the
  classifier changes them, a second call with the same request may return another
  category. Here the model counts its calls and answers by the count.
\<close>

lemma changing_classifier:
  "categorize_sms
       \<lparr> model = Some \<lparr> predict = (\<lambda>v :: unit. \<lambda>c :: nat.
                          (Inr [if c = 0 then py ''Emergency'' else py ''Impulse''], Suc c)),
                        predict_proba = (\<lambda>v c. (Inr [[1 / 10, 7 / 10, 1 / 5]], c)) \<rparr>,
         vectorizer = Some (\<lambda>texts c. (Inr (), c)) \<rparr>
       (\<lambda>x. x) now ascii_tables
       (Inr (JObj [(py ''sms_text'', JStr (py ''Rs 1500 emergency doctor fees''))])) c
   = \<lparr> returned = (Result \<lparr> category = if c = 0 then py ''Emergency'' else py ''Impulse'',
                             confidence = 7 / 10, amount = 1500,
                             merchant = py ''Unknown Merchant'',
                             original_text = py ''Rs 1500 emergency doctor fees'',
                             processed_at = now \<rparr>, 200),
       printed = [Processing (JStr (py ''Rs 1500 emergency doctor fees'')),
                  Result_line (if c = 0 then py ''Emergency'' else py ''Impulse'') (7 / 10)],
       objects = Suc c \<rparr>"
  by (rule example_call
             [where m = "\<lparr> predict = (\<lambda>v c. (Inr [if c = 0 then py ''Emergency'' else py ''Impulse''],
                                                Suc c)),
                            predict_proba = (\<lambda>v c. (Inr [[1 / 10, 7 / 10, 1 / 5]], c)) \<rparr>"
                and transform = "\<lambda>texts c. (Inr (), c)" and v = "()"
                and c_transform = c and c_predict = "Suc c"])
     (simp_all add: py_def surrogate_def)

text \<open>
  A text with a lone surrogate, which JSON can carry as \<^verbatim>\<open>"\ud800"\<close>: when standard output
  is UTF-8 the first \<^verbatim>\<open>print\<close> raises, and the call answers with the error (status 500)
  before the classifier is called.
\<close>

lemma surrogate_call:
  assumes "model G = Some m" "vectorizer G = Some transform"
  shows "categorize_sms G round2 now ascii_tables (Inr (JObj [(py ''sms_text'', JStr [55296])])) c
         = \<lparr> returned = (Error (Str_of UnicodeEncodeError), 500),
             printed = [Error_line UnicodeEncodeError], objects = c \<rparr>"
proof -
  have "process m transform round2 now ascii_tables (JStr [55296]) c
        = \<lparr> returned = Inl UnicodeEncodeError, printed = [], objects = c \<rparr>"
    by (simp add: process_def and_then_def quiet_def py_print_def Let_def ascii_tables_def
                  surrogate_def)
  with assms show ?thesis
    by (simp add: categorize_sms_def attempt_def and_then_quiet_Inr and_then_answer Let_def
                  ascii_tables_def)
qed

text \<open>
  C7. When the model or the vectorizer has not been loaded, every call of the endpoint,
  whatever the request, the clock, the tables and the state of the objects, answers with
  the response "Model not loaded properly" (status 500), prints nothing and leaves the
  objects as they are: no result with a category is returned, and the response is not
  the one that a request without \<^verbatim>\<open>sms_text\<close> gets.
\<close>

theorem model_unavailable_fails_fast:
  assumes "model G = None \<or> vectorizer G = None"
  shows "categorize_sms G round2 now U get_json c
           = \<lparr> returned = model_not_loaded, printed = [], objects = c \<rparr>
         \<and> (\<forall>r. fst (returned (categorize_sms G round2 now U get_json c)) \<noteq> Result r)
         \<and> returned (categorize_sms G round2 now U get_json c) \<noteq> missing_sms_text"
  using assms
  by (simp add: categorize_sms_def attempt_unloaded model_not_loaded_def missing_sms_text_def)

theorem model_unavailable_fails_fast_witness:
  "categorize_sms \<lparr> model = None :: (unit, unit) model option, vectorizer = None \<rparr> (\<lambda>x. x)
       ''2024-01-01 00:00:00'' ascii_tables
       (Inr (JObj [(py ''sms_text'', JStr (py ''Rs 200 spent on Swiggy order''))])) ()
     = \<lparr> returned = (Error (Message ''Model not loaded properly''), 500), printed = [],
         objects = () \<rparr>"
  using model_unavailable_fails_fast
          [of "\<lparr> model = None :: (unit, unit) model option, vectorizer = None \<rparr>"
              "\<lambda>x. x" "''2024-01-01 00:00:00''" ascii_tables
              "Inr (JObj [(py ''sms_text'', JStr (py ''Rs 200 spent on Swiggy order''))])" "()"]
  by (simp add: model_not_loaded_def)

text \<open>
  C9. The test for the classifier comes before the test of the request: with the model
  or the vectorizer missing, every request gets the response "Model not loaded
  properly", which is not the response for a missing \<^verbatim>\<open>sms_text\<close>; in particular a JSON
  object without the key \<^verbatim>\<open>sms_text\<close> gets it, while the same object sent to an endpoint
  whose classifier is loaded gets the response for a missing \<^verbatim>\<open>sms_text\<close> (status 400).
\<close>

theorem availability_check_precedes_validation:
  assumes "model G = None \<or> vectorizer G = None"
  shows "returned (categorize_sms G round2 now U get_json c) = model_not_loaded
         \<and> (model_not_loaded :: result response) \<noteq> missing_sms_text
         \<and> (py ''sms_text'' \<notin> set (map fst kvs) \<longrightarrow>
              returned (categorize_sms G round2 now U (Inr (JObj kvs)) c) = model_not_loaded
              \<and> (model G' \<noteq> None \<longrightarrow> vectorizer G' \<noteq> None \<longrightarrow>
                   returned (categorize_sms G' round2 now U (Inr (JObj kvs)) c')
                   = missing_sms_text))"
proof -
  have "returned (categorize_sms G' round2 now U (Inr (JObj kvs)) c') = missing_sms_text"
    if "py ''sms_text'' \<notin> set (map fst kvs)" "model G' \<noteq> None" "vectorizer G' \<noteq> None"
    using that
    by (cases "kvs = []")
       (auto simp: categorize_sms_def attempt_def and_then_quiet_Inr quiet_def)
  with assms show ?thesis
    by (simp add: categorize_sms_def attempt_unloaded model_not_loaded_def
                  missing_sms_text_def)
qed

theorem availability_check_precedes_validation_witness:
  "returned (categorize_sms \<lparr> model = None :: (unit, unit) model option, vectorizer = None \<rparr>
       (\<lambda>x. x) ''2024-01-01 00:00:00'' ascii_tables
       (Inr (JObj [(py ''text'', JStr (py ''Rs 200''))])) ())
     = (Error (Message ''Model not loaded properly''), 500)
   \<and> returned (categorize_sms
       \<lparr> model = Some \<lparr> predict = (\<lambda>v :: unit. \<lambda>c :: unit. (Inr [py ''Impulse''], c)),
                        predict_proba = (\<lambda>v c. (Inr [[1 / 5, 7 / 10, 1 / 10]], c)) \<rparr>,
         vectorizer = Some (\<lambda>texts c. (Inr (), c)) \<rparr> (\<lambda>x. x)
       ''2024-01-01 00:00:00'' ascii_tables (Inr (JObj [(py ''text'', JStr (py ''Rs 200''))])) ())
     = (Error_with_example (Message ''Please provide sms_text in JSON'')
                           (py ''Rs 200 spent on Swiggy order''), 400)"
proof -
  have "py ''sms_text'' \<notin> set (map fst [(py ''text'', JStr (py ''Rs 200''))])"
    by (simp add: py_def)
  with availability_check_precedes_validation
         [of "\<lparr> model = None :: (unit, unit) model option, vectorizer = None \<rparr>"
             "\<lambda>x. x" "''2024-01-01 00:00:00''" ascii_tables
             "Inr (JObj [(py ''text'', JStr (py ''Rs 200''))])" "()"
             "[(py ''text'', JStr (py ''Rs 200''))]"
             "\<lparr> model = Some \<lparr> predict = (\<lambda>v :: unit. \<lambda>c :: unit. (Inr [py ''Impulse''], c)),
                               predict_proba = (\<lambda>v c. (Inr [[1 / 5, 7 / 10, 1 / 10]], c)) \<rparr>,
                vectorizer = Some (\<lambda>texts c. (Inr (), c)) \<rparr>" "()"]
  show ?thesis by (simp add: model_not_loaded_def missing_sms_text_def)
qed

text \<open>
  C4, as the claim states it, fails: the endpoint is not pure, and two calls do not give
  identical results. With a classifier that is read-only and always answers the same,
  the same tables and the same request, a call at one second and a call at the next
  return different results, since \<^verbatim>\<open>processed_at\<close> is the time of the call; and each call
  prints two lines to standard output.
\<close>

theorem processed_at_counterexample:
  "returned (categorize_sms
       \<lparr> model = Some \<lparr> predict = (\<lambda>v :: unit. \<lambda>c :: unit. (Inr [py ''Emergency''], c)),
                        predict_proba = (\<lambda>v c. (Inr [[1 / 10, 7 / 10, 1 / 5]], c)) \<rparr>,
         vectorizer = Some (\<lambda>texts c. (Inr (), c)) \<rparr>
       (\<lambda>x. x) ''2024-01-01 00:00:00'' ascii_tables
       (Inr (JObj [(py ''sms_text'', JStr (py ''Rs 1500 emergency doctor fees''))])) ())
   \<noteq> returned (categorize_sms
       \<lparr> model = Some \<lparr> predict = (\<lambda>v :: unit. \<lambda>c :: unit. (Inr [py ''Emergency''], c)),
                        predict_proba = (\<lambda>v c. (Inr [[1 / 10, 7 / 10, 1 / 5]], c)) \<rparr>,
         vectorizer = Some (\<lambda>texts c. (Inr (), c)) \<rparr>
       (\<lambda>x. x) ''2024-01-01 00:00:01'' ascii_tables
       (Inr (JObj [(py ''sms_text'', JStr (py ''Rs 1500 emergency doctor fees''))])) ())
   \<and> printed (categorize_sms
       \<lparr> model = Some \<lparr> predict = (\<lambda>v :: unit. \<lambda>c :: unit. (Inr [py ''Emergency''], c)),
                        predict_proba = (\<lambda>v c. (Inr [[1 / 10, 7 / 10, 1 / 5]], c)) \<rparr>,
         vectorizer = Some (\<lambda>texts c. (Inr (), c)) \<rparr>
       (\<lambda>x. x) ''2024-01-01 00:00:00'' ascii_tables
       (Inr (JObj [(py ''sms_text'', JStr (py ''Rs 1500 emergency doctor fees''))])) ())
     = [Processing (JStr (py ''Rs 1500 emergency doctor fees'')),
        Result_line (py ''Emergency'') (7 / 10)]"
  by (simp add: read_only_call)

text \<open>
  C4, amended. With a read-only classifier, two calls of the endpoint one after the
  other, the second on the objects as the first has left them, with the same globals,
  tables and request, at any two times: both give the same status and the same body up
  to the time of the call (the same error, or results whose category, confidence,
  amount, merchant and original text are equal), both print the same lines, and the
  objects are after each call as they were before the first.
\<close>

theorem process_deterministic:
  assumes "read_only G"
  shows "let first = categorize_sms G round2 now1 U get_json c;
             second = categorize_sms G round2 now2 U get_json (objects first)
         in extraction (returned second) = extraction (returned first)
            \<and> printed second = printed first
            \<and> objects first = c \<and> objects second = c"
  using categorize_sms_clock [of G round2 now2 U get_json c now1]
        categorize_sms_frame [OF assms]
  by (simp add: Let_def)


theorem process_deterministic_witness:
  "extraction (returned (categorize_sms
       \<lparr> model = Some \<lparr> predict = (\<lambda>v :: unit. \<lambda>c :: nat. (Inr [py ''Emergency''], c)),
                        predict_proba = (\<lambda>v c. (Inr [[1 / 10, 7 / 10, 1 / 5]], c)) \<rparr>,
         vectorizer = Some (\<lambda>texts c. (Inr (), c)) \<rparr>
       (\<lambda>x. x) ''2024-01-01 00:00:01'' ascii_tables
       (Inr (JObj [(py ''sms_text'', JStr (py ''Rs 1500 emergency doctor fees''))])) 0))
   = (Result \<lparr> category = py ''Emergency'', confidence = 7 / 10, amount = 1500,
               merchant = py ''Unknown Merchant'',
               original_text = py ''Rs 1500 emergency doctor fees'' \<rparr>, 200)
   \<and> printed (categorize_sms
       \<lparr> model = Some \<lparr> predict = (\<lambda>v :: unit. \<lambda>c :: nat. (Inr [py ''Emergency''], c)),
                        predict_proba = (\<lambda>v c. (Inr [[1 / 10, 7 / 10, 1 / 5]], c)) \<rparr>,
         vectorizer = Some (\<lambda>texts c. (Inr (), c)) \<rparr>
       (\<lambda>x. x) ''2024-01-01 00:00:01'' ascii_tables
       (Inr (JObj [(py ''sms_text'', JStr (py ''Rs 1500 emergency doctor fees''))])) 0)
     = [Processing (JStr (py ''Rs 1500 emergency doctor fees'')),
        Result_line (py ''Emergency'') (7 / 10)]"
proof -
  have "read_only
       \<lparr> model = Some \<lparr> predict = (\<lambda>v :: unit. \<lambda>c :: nat. (Inr [py ''Emergency''], c)),
                        predict_proba = (\<lambda>v c. (Inr [[1 / 10, 7 / 10, 1 / 5]], c)) \<rparr>,
         vectorizer = Some (\<lambda>texts c. (Inr (), c)) \<rparr>"
    by (simp add: read_only_def leaves_unchanged_def)
  from process_deterministic [OF this, of "\<lambda>x. x" "''2024-01-01 00:00:00''" ascii_tables
         "Inr (JObj [(py ''sms_text'', JStr (py ''Rs 1500 emergency doctor fees''))])" 0
         "''2024-01-01 00:00:01''"]
  show ?thesis
    by (simp add: Let_def read_only_call [of "''2024-01-01 00:00:00''" 0] extraction_def
                  extraction_result.truncate_def)
qed

end
